theory Spec2Isabelle
  imports Complex_Main "HOL-Library.Word"
begin

section \<open>Values, object graphs and graph nodes\<close>

text \<open>
  A JavaScript value is a primitive or a reference to an object on the heap. The heap is a
  list of objects and a reference is an index into it, so object identity is the address
  and a graph may share objects and may be cyclic.

  Numbers are \<open>NaN\<close> or an exact rational; negative zero and the infinities are not part of
  the model. With this, \<open>Object.is\<close> and the \<open>SameValueZero\<close> test of \<open>Map.has\<close> and
  \<open>Set.has\<close> are both equality of \<open>val\<close>.
\<close>

datatype jsnum = NaN | Num rat

datatype val =
    VUndefined
  | VNull
  | VBool bool
  | VNumber jsnum
  | VString string
  | VSymbol nat
  | VRef nat

text \<open>
  A view on a buffer is a \<open>DataView\<close> or a typed array; it shows \<open>len\<close> bytes of the buffer
  from offset \<open>off\<close>.
\<close>

datatype viewKind = DataView | TypedArray

datatype obj =
    OArray "val list"
  | OSet "val list"
  | OMap "(val \<times> val) list"
  | OObject "(string \<times> val) list"
  | ODate int
  | ORegExp string
  | OView viewKind nat nat nat
  | OBuffer "nat list"
  | OFunction

type_synonym heap = "obj list"

text \<open>
  An address outside the heap does not occur in a running program; the model reads it as
  an opaque function object, which every algorithm treats as a leaf.
\<close>

definition deref :: "heap \<Rightarrow> nat \<Rightarrow> obj" where
  "deref h a = (if a < length h then h ! a else OFunction)"

text \<open>The strings that \<open>GraphNode.typeOf\<close> takes (\<open>Visitor.updateNodeTypeOf\<close>).\<close>

datatype kind =
    Ty_undefined | Ty_null | Ty_boolean | Ty_number | Ty_string | Ty_symbol | Ty_function
  | Ty_object | Ty_array | Ty_date | Ty_map | Ty_set | Ty_regex | Ty_view | Ty_buffer

fun objTypeOf :: "obj \<Rightarrow> kind" where
  "objTypeOf (OArray xs) = Ty_array"
| "objTypeOf (ODate t) = Ty_date"
| "objTypeOf (OMap kvs) = Ty_map"
| "objTypeOf (OSet xs) = Ty_set"
| "objTypeOf (ORegExp s) = Ty_regex"
| "objTypeOf (OView k b off len) = Ty_view"
| "objTypeOf (OBuffer bs) = Ty_buffer"
| "objTypeOf (OObject ps) = Ty_object"
| "objTypeOf OFunction = Ty_function"

fun updateNodeTypeOf :: "heap \<Rightarrow> val \<Rightarrow> kind" where
  "updateNodeTypeOf h VNull = Ty_null"
| "updateNodeTypeOf h VUndefined = Ty_undefined"
| "updateNodeTypeOf h (VBool b) = Ty_boolean"
| "updateNodeTypeOf h (VNumber n) = Ty_number"
| "updateNodeTypeOf h (VString s) = Ty_string"
| "updateNodeTypeOf h (VSymbol s) = Ty_symbol"
| "updateNodeTypeOf h (VRef a) = objTypeOf (deref h a)"

text \<open>
  The key by which a parent reaches a child: a property name, an array index (an integer,
  because \<open>Diff.createAdd\<close> negates it), or a \<open>Map\<close> key.
\<close>

datatype propKey = PName string | PIndex int | PKey val

text \<open>
  \<open>GraphNode\<close>. The fields \<open>typeOf\<close> and \<open>properties\<close> of the source are caches of
  functions of the value; the model computes them where they are read.
\<close>

datatype node =
  Node (nodeValue: val) (property: "propKey option") (position: "nat option")
       (parentNode: "node option")

definition nodeTypeOf :: "heap \<Rightarrow> node \<Rightarrow> kind" where
  "nodeTypeOf h n = updateNodeTypeOf h (nodeValue n)"

definition rootNode :: "val \<Rightarrow> node" where
  "rootNode v = Node v None None None"

text \<open>JavaScript truthiness, as used by \<open>if (ctx.refs && node.value)\<close>.\<close>

fun truthy :: "val \<Rightarrow> bool" where
  "truthy VUndefined = False"
| "truthy VNull = False"
| "truthy (VBool b) = b"
| "truthy (VNumber n) = (n \<noteq> NaN \<and> n \<noteq> Num 0)"
| "truthy (VString s) = (s \<noteq> [])"
| "truthy (VSymbol s) = True"
| "truthy (VRef a) = True"

definition objectIs :: "val \<Rightarrow> val \<Rightarrow> bool" where
  "objectIs v w = (v = w)"

section \<open>Results of a call\<close>

text \<open>
  A call that recurses deeper than its fuel gives \<open>None\<close>; a call that throws gives
  \<open>Some (Inl e)\<close>; a call that returns gives \<open>Some (Inr x)\<close>.
\<close>

datatype error = TypeError | InternalLogicError | StructuralMismatch

type_synonym 'a res = "(error + 'a) option"

definition ret :: "'a \<Rightarrow> 'a res" where
  "ret x = Some (Inr x)"

definition throw :: "error \<Rightarrow> 'a res" where
  "throw e = Some (Inl e)"

fun rbind :: "'a res \<Rightarrow> ('a \<Rightarrow> 'b res) \<Rightarrow> 'b res" where
  "rbind None f = None"
| "rbind (Some (Inl e)) f = Some (Inl e)"
| "rbind (Some (Inr x)) f = f x"

text \<open>What a visit returns: \<open>boolean | GraphNode\<close>; a node aborts the traversal.\<close>

datatype vres = RBool bool | RNode node

section \<open>The visited-value list (\<open>Visitor.hasReference\<close> and friends)\<close>

fun findIndex :: "('a \<Rightarrow> bool) \<Rightarrow> 'a list \<Rightarrow> int" where
  "findIndex P [] = -1"
| "findIndex P (x # xs) = (if P x then 0 else (let i = findIndex P xs in if i < 0 then -1 else i + 1))"

definition indexOfReference :: "val list option \<Rightarrow> node \<Rightarrow> int" where
  "indexOfReference rs n =
     (case rs of
        Some xs \<Rightarrow> (if truthy (nodeValue n) then findIndex (\<lambda>e. objectIs e (nodeValue n)) xs else -1)
      | None \<Rightarrow> -1)"

definition hasReference :: "val list option \<Rightarrow> node \<Rightarrow> bool" where
  "hasReference rs n = (indexOfReference rs n \<ge> 0)"

definition addReference :: "val list option \<Rightarrow> node \<Rightarrow> val list option" where
  "addReference rs n =
     (case rs of
        Some xs \<Rightarrow> (if truthy (nodeValue n) then Some (xs @ [nodeValue n]) else Some xs)
      | None \<Rightarrow> None)"

section \<open>The environment and the options of a comparison\<close>

text \<open>
  Built-in operations of the language that the algorithms call and that are not part of
  the repository are parameters: \<open>String.prototype.localeCompare\<close>, the loose equality
  operator \<open>==\<close> and \<open>JSON.stringify\<close>. The heap is read-only during a comparison.
\<close>

record js =
  heap :: heap
  localeCompare :: "string \<Rightarrow> string \<Rightarrow> int"
  looseEq :: "val \<Rightarrow> val \<Rightarrow> bool"
  jsonStringify :: "val \<Rightarrow> string"

text \<open>
  \<open>Compare\<close> is abstract; its two concrete subclasses are \<open>Equal\<close>, which inherits
  \<open>notEqual\<close>, \<open>noLhs\<close> and \<open>noRhs\<close>, and \<open>Diff\<close>, which overrides them. The record is
  the algorithm instance (\<open>this\<close>) with the options of \<open>CompareOptions\<close>. Properties
  are discovered by the default \<open>objPropsFn\<close> (\<open>Object.keys\<close>); \<open>propFilter\<close> and
  \<open>rhsCopyOpts\<close> are left unset.
\<close>

datatype algorithm = Equal | Diff

record comparator =
  algorithm :: algorithm
  guardCircularRefs :: bool
  looseEquality :: bool
  epsilon :: "rat option"
  laxArrayOrdering :: bool
  strictMapOrdering :: bool
  strictSetOrdering :: bool

text \<open>
  The comparison results: \<open>IS_SAME\<close> is \<open>null\<close>, \<open>IS_EQUAL_B\<close> is \<open>false\<close>,
  \<open>NOT_EQUAL\<close> is \<open>true\<close>, and \<open>IS_LT\<close>, \<open>IS_EQUAL_N\<close>, \<open>IS_GT\<close> are -1, 0, 1.
\<close>

datatype cmp = CNull | CBool bool | CNum int

definition IS_SAME :: cmp where "IS_SAME = CNull"
definition IS_EQUAL_B :: cmp where "IS_EQUAL_B = CBool False"
definition NOT_EQUAL :: cmp where "NOT_EQUAL = CBool True"
definition IS_LT :: cmp where "IS_LT = CNum (-1)"
definition IS_EQUAL_N :: cmp where "IS_EQUAL_N = CNum 0"
definition IS_GT :: cmp where "IS_GT = CNum 1"

text \<open>\<open>IS_EQUAL v\<close> is \<open>!v\<close>: null, false and zero signify equality.\<close>

fun IS_EQUAL :: "cmp \<Rightarrow> bool" where
  "IS_EQUAL CNull = True"
| "IS_EQUAL (CBool b) = (\<not> b)"
| "IS_EQUAL (CNum n) = (n = 0)"

section \<open>Changes and paths (\<open>diff.ts\<close>)\<close>

record pathSegment =
  typeOf :: kind
  segment :: "propKey option"

datatype change =
    RemoveFromLhs "pathSegment list"
  | AddToLhs "pathSegment list" val
  | EditLhs "pathSegment list" val

text \<open>
  \<open>VisitorContext\<close> holds the visited values, defined only under \<open>guardCircularRefs\<close>;
  \<open>CompareContext\<close> and \<open>DiffContext\<close> extend it.
\<close>

record visitorContext =
  refs :: "val list option"

record compareContext = visitorContext +
  result :: "cmp option"
  searching :: bool
  searchResult :: "cmp option"
  changes :: "change list"

definition createContext :: "comparator \<Rightarrow> compareContext" where
  "createContext this =
     \<lparr>refs = (if guardCircularRefs this then Some [] else None), result = None,
      searching = False, searchResult = None, changes = []\<rparr>"

text \<open>\<open>stringHashCode\<close> of \<open>util\<close>: \<open>h = (Math.imul(31, h) + s.charCodeAt(i)) | 0\<close>.\<close>

definition stringHashCode :: "string \<Rightarrow> int" where
  "stringHashCode s = sint (fold (\<lambda>c h. 31 * h + of_nat (of_char c)) s (0 :: 32 word))"

text \<open>The decimal string of a number, for \<open>'' + n\<close>.\<close>

definition digitChar :: "nat \<Rightarrow> char" where
  "digitChar d = char_of (48 + d)"

function showNat :: "nat \<Rightarrow> string" where
  "showNat n = (if n < 10 then [digitChar n] else showNat (n div 10) @ [digitChar (n mod 10)])"
  by pat_completeness auto
termination
  by (relation "measure id") auto

definition showInt :: "int \<Rightarrow> string" where
  "showInt i = (if i < 0 then CHR ''-'' # showNat (nat (- i)) else showNat (nat i))"

fun makePath :: "js \<Rightarrow> comparator \<Rightarrow> node \<Rightarrow> pathSegment list" where
  "makePath env this (Node v p pos None) = []"
| "makePath env this (Node v p pos (Some par)) =
     (let t = nodeTypeOf (heap env) par;
          s = (if t = Ty_set
               then (if strictSetOrdering this \<and> pos \<noteq> None
                     then Some (PIndex (int (the pos)))
                     else Some (PName (showInt (stringHashCode (jsonStringify env v)))))
               else p)
      in makePath env this par @ [\<lparr>typeOf = t, segment = s\<rparr>])"

definition createRemove :: "js \<Rightarrow> comparator \<Rightarrow> node \<Rightarrow> change" where
  "createRemove env this lhs = RemoveFromLhs (makePath env this lhs)"

text \<open>
  \<open>createAdd\<close> reads \<open>path[path.length-1].typeOf\<close>; on an empty path that is a property
  read on \<open>undefined\<close>, a TypeError. An array index \<open>i\<close> becomes \<open>-i - 1\<close>.
\<close>

fun insertMarker :: "propKey option \<Rightarrow> propKey option" where
  "insertMarker (Some (PIndex i)) = Some (PIndex (- i - 1))"
| "insertMarker s = s"

definition createAdd :: "js \<Rightarrow> comparator \<Rightarrow> node \<Rightarrow> error + change" where
  "createAdd env this rhs =
     (let path = makePath env this rhs in
      if path = [] then Inl TypeError
      else if typeOf (last path) = Ty_array
      then Inr (AddToLhs (butlast path @ [(last path)\<lparr>segment := insertMarker (segment (last path))\<rparr>])
                 (nodeValue rhs))
      else Inr (AddToLhs path (nodeValue rhs)))"

definition createEdit :: "js \<Rightarrow> comparator \<Rightarrow> node \<Rightarrow> node \<Rightarrow> change" where
  "createEdit env this lhs rhs = EditLhs (makePath env this rhs) (nodeValue rhs)"

section \<open>Outcome hooks (\<open>Compare\<close> and the overrides of \<open>Diff\<close>)\<close>

definition areEqual :: "compareContext \<Rightarrow> cmp \<Rightarrow> vres \<times> compareContext" where
  "areEqual ctx c =
     (RBool False,
      if searching ctx
      then (if searchResult ctx = None then ctx\<lparr>searchResult := Some c\<rparr> else ctx)
      else (if result ctx = None then ctx\<lparr>result := Some c\<rparr> else ctx))"

definition notEqual ::
  "js \<Rightarrow> comparator \<Rightarrow> compareContext \<Rightarrow> node \<Rightarrow> node \<Rightarrow> cmp \<Rightarrow> (vres \<times> compareContext) res" where
  "notEqual env this ctx lhs rhs c =
     (case algorithm this of
        Equal \<Rightarrow>
          ret (RNode lhs, if searching ctx then ctx\<lparr>searchResult := Some c\<rparr> else ctx\<lparr>result := Some c\<rparr>)
      | Diff \<Rightarrow>
          ret (RBool True,
               if searching ctx then ctx\<lparr>searchResult := Some c\<rparr>
               else ctx\<lparr>changes := changes ctx @ [createEdit env this lhs rhs], result := Some c\<rparr>))"

definition noLhs ::
  "js \<Rightarrow> comparator \<Rightarrow> compareContext \<Rightarrow> node \<Rightarrow> (vres \<times> compareContext) res" where
  "noLhs env this ctx rhs =
     (case algorithm this of
        Equal \<Rightarrow>
          ret (RNode rhs,
               if searching ctx then ctx\<lparr>searchResult := Some NOT_EQUAL\<rparr>
               else ctx\<lparr>result := Some NOT_EQUAL\<rparr>)
      | Diff \<Rightarrow>
          (if searching ctx then ret (RBool True, ctx\<lparr>searchResult := Some NOT_EQUAL\<rparr>)
           else (case createAdd env this rhs of
                   Inl e \<Rightarrow> throw e
                 | Inr c \<Rightarrow> ret (RBool True, ctx\<lparr>changes := changes ctx @ [c], result := Some NOT_EQUAL\<rparr>))))"

definition noRhs ::
  "js \<Rightarrow> comparator \<Rightarrow> compareContext \<Rightarrow> node \<Rightarrow> (vres \<times> compareContext) res" where
  "noRhs env this ctx lhs =
     (case algorithm this of
        Equal \<Rightarrow>
          ret (RNode lhs,
               if searching ctx then ctx\<lparr>searchResult := Some NOT_EQUAL\<rparr>
               else ctx\<lparr>result := Some NOT_EQUAL\<rparr>)
      | Diff \<Rightarrow>
          ret (RBool True,
               if searching ctx then ctx\<lparr>searchResult := Some NOT_EQUAL\<rparr>
               else ctx\<lparr>changes := changes ctx @ [createRemove env this lhs], result := Some NOT_EQUAL\<rparr>))"

section \<open>Leaf comparison (\<open>Compare.visitOther\<close>)\<close>

definition isNaN :: "jsnum \<Rightarrow> bool" where
  "isNaN x = (x = NaN)"

text \<open>\<open>Math.abs(a - b) < e\<close> and \<open>a < b\<close>; both are false when an operand is NaN.\<close>

fun absDiffLess :: "jsnum \<Rightarrow> jsnum \<Rightarrow> rat \<Rightarrow> bool" where
  "absDiffLess (Num a) (Num b) e = (\<bar>a - b\<bar> < e)"
| "absDiffLess a b e = False"

fun numLess :: "jsnum \<Rightarrow> jsnum \<Rightarrow> bool" where
  "numLess (Num a) (Num b) = (a < b)"
| "numLess a b = False"

definition NUMBER_EPSILON :: rat where
  "NUMBER_EPSILON = 1 / 2 ^ 52"

text \<open>
  The \<open>'number'\<close> case: three statements in sequence, each assigning \<open>result\<close>; the last
  is an \<open>if\<close> with an \<open>else\<close>.
\<close>

definition compareNumbers :: "comparator \<Rightarrow> jsnum \<Rightarrow> jsnum \<Rightarrow> cmp option" where
  "compareNumbers this l r =
     (let e = (case epsilon this of Some e \<Rightarrow> e | None \<Rightarrow> NUMBER_EPSILON);
          result = None;
          result = (if isNaN l \<or> isNaN r then Some IS_EQUAL_B else result);
          result = (if absDiffLess l r e then Some IS_EQUAL_N else result);
          result = (if numLess l r then Some IS_LT else Some IS_GT)
      in result)"

text \<open>The bytes a view shows: a window of its buffer.\<close>

definition bufferBytes :: "heap \<Rightarrow> nat \<Rightarrow> nat list" where
  "bufferBytes h a = (case deref h a of OBuffer bs \<Rightarrow> bs | _ \<Rightarrow> [])"

definition viewBytes :: "heap \<Rightarrow> nat \<Rightarrow> nat \<Rightarrow> nat \<Rightarrow> nat list" where
  "viewBytes h b off len = take len (drop off (bufferBytes h b))"

text \<open>
  The byte loops of the \<open>'view'\<close> and \<open>'buffer'\<close> cases run over lists of equal length and
  stop at the first difference.
\<close>

definition compareBytes :: "nat list \<Rightarrow> nat list \<Rightarrow> cmp" where
  "compareBytes lb rb = (if list_all2 (=) lb rb then IS_EQUAL_B else NOT_EQUAL)"

definition strictEq :: "val \<Rightarrow> val \<Rightarrow> bool" where
  "strictEq v w = (v = w \<and> v \<noteq> VNumber NaN)"

definition defaultCompare :: "js \<Rightarrow> comparator \<Rightarrow> val \<Rightarrow> val \<Rightarrow> cmp" where
  "defaultCompare env this l r =
     (if objectIs l r then IS_SAME
      else if looseEquality this \<and> looseEq env l r then IS_EQUAL_B
      else if strictEq l r then IS_EQUAL_B
      else NOT_EQUAL)"

text \<open>
  The \<open>switch (node.typeOf)\<close> of \<open>visitOther\<close>; both values have the type of the node.
  \<open>None\<close> is a \<open>result\<close> left \<open>undefined\<close>, for which \<open>areEqual\<close> stores nothing. This is
  the result when the switch completes; the one case in which it does not, a byte loop that
  reads a typed array, is \<open>viewReadFails\<close> below, which \<open>visitOther\<close> tests first.
\<close>

definition leafResult :: "js \<Rightarrow> comparator \<Rightarrow> kind \<Rightarrow> val \<Rightarrow> val \<Rightarrow> cmp option" where
  "leafResult env this t l r =
     (case (t, l, r) of
        (Ty_string, VString a, VString b) \<Rightarrow> Some (CNum (localeCompare env a b))
      | (Ty_number, VNumber a, VNumber b) \<Rightarrow> compareNumbers this a b
      | (Ty_regex, VRef a, VRef b) \<Rightarrow>
          (case (deref (heap env) a, deref (heap env) b) of
             (ORegExp x, ORegExp y) \<Rightarrow>
               Some (if localeCompare env x y \<noteq> 0 then NOT_EQUAL else IS_EQUAL_B)
           | _ \<Rightarrow> Some (defaultCompare env this l r))
      | (Ty_date, VRef a, VRef b) \<Rightarrow>
          (case (deref (heap env) a, deref (heap env) b) of
             (ODate x, ODate y) \<Rightarrow>
               Some (if x < y then IS_LT else if x > y then IS_GT else IS_EQUAL_N)
           | _ \<Rightarrow> Some (defaultCompare env this l r))
      | (Ty_view, VRef a, VRef b) \<Rightarrow>
          (case (deref (heap env) a, deref (heap env) b) of
             (OView lk lbuf loff llen, OView rk rbuf roff rlen) \<Rightarrow>
               Some (if llen \<noteq> rlen then NOT_EQUAL
                     else if objectIs (VRef lbuf) (VRef rbuf) then IS_EQUAL_B
                     else compareBytes (viewBytes (heap env) lbuf loff llen)
                                       (viewBytes (heap env) rbuf roff rlen))
           | _ \<Rightarrow> Some (defaultCompare env this l r))
      | (Ty_buffer, VRef a, VRef b) \<Rightarrow>
          (case (deref (heap env) a, deref (heap env) b) of
             (OBuffer x, OBuffer y) \<Rightarrow>
               Some (if length x \<noteq> length y then NOT_EQUAL else compareBytes x y)
           | _ \<Rightarrow> Some (defaultCompare env this l r))
      | _ \<Rightarrow> Some (defaultCompare env this l r))"

text \<open>
  The byte loop of the \<open>'view'\<close> case reads both views with \<open>getUint8\<close>, a method of
  \<open>DataView\<close> only. The loop is reached when the byte lengths agree and the buffers are
  distinct, and it runs when the length is not zero; its first iteration then throws a
  TypeError if one of the two views is a typed array.
\<close>

definition viewReadFails :: "js \<Rightarrow> kind \<Rightarrow> val \<Rightarrow> val \<Rightarrow> bool" where
  "viewReadFails env t l r =
     (case (t, l, r) of
        (Ty_view, VRef a, VRef b) \<Rightarrow>
          (case (deref (heap env) a, deref (heap env) b) of
             (OView lk lbuf loff llen, OView rk rbuf roff rlen) \<Rightarrow>
               llen = rlen \<and> \<not> objectIs (VRef lbuf) (VRef rbuf) \<and> 0 < llen
               \<and> (lk = TypedArray \<or> rk = TypedArray)
           | _ \<Rightarrow> False)
      | _ \<Rightarrow> False)"

definition visitOther ::
  "js \<Rightarrow> comparator \<Rightarrow> node \<Rightarrow> node \<Rightarrow> compareContext \<Rightarrow> (vres \<times> compareContext) res" where
  "visitOther env this lhs rhs ctx =
     (if viewReadFails env (nodeTypeOf (heap env) rhs) (nodeValue lhs) (nodeValue rhs)
      then throw TypeError
      else
        (case leafResult env this (nodeTypeOf (heap env) rhs) (nodeValue lhs) (nodeValue rhs) of
           Some c \<Rightarrow> (if IS_EQUAL c then ret (areEqual ctx c) else notEqual env this ctx lhs rhs c)
         | None \<Rightarrow> ret (RBool False, ctx)))"

section \<open>Container comparison (\<open>Compare.visitObject\<close>, \<open>visitMap\<close>, \<open>visitSet\<close>, \<open>visitArray\<close>)\<close>

text \<open>
  The recursive calls of the source go through \<open>this.compare\<close> (directly, or through the
  overridden \<open>this.visit\<close>, which calls \<open>this.compare(node.lhs, node, ctx)\<close>). The
  visitors take that function as the parameter \<open>self\<close>; the left node that the source
  hangs on the right node is passed beside it.
\<close>

type_synonym compareFn =
  "node option \<Rightarrow> node option \<Rightarrow> compareContext \<Rightarrow> (vres \<times> compareContext) res"

text \<open>
  A loop of the form \<open>for (...) { r = step; if (r && typeof r !== 'boolean') return r; }\<close>
  and the code after it.
\<close>

fun chain :: "(vres \<times> 's) res \<Rightarrow> ('s \<Rightarrow> (vres \<times> 's) res) \<Rightarrow> (vres \<times> 's) res" where
  "chain None k = None"
| "chain (Some (Inl e)) k = Some (Inl e)"
| "chain (Some (Inr (RNode n, ctx))) k = Some (Inr (RNode n, ctx))"
| "chain (Some (Inr (RBool b, ctx))) k = k ctx"

fun visitEach :: "('a \<Rightarrow> 's \<Rightarrow> (vres \<times> 's) res) \<Rightarrow> 'a list \<Rightarrow> 's \<Rightarrow> (vres \<times> 's) res" where
  "visitEach step [] ctx = ret (RBool False, ctx)"
| "visitEach step (x # xs) ctx = chain (step x ctx) (visitEach step xs)"

definition objectEntries :: "heap \<Rightarrow> val \<Rightarrow> (string \<times> val) list" where
  "objectEntries h v = (case v of VRef a \<Rightarrow> (case deref h a of OObject ps \<Rightarrow> ps | _ \<Rightarrow> []) | _ \<Rightarrow> [])"

definition mapEntries :: "heap \<Rightarrow> val \<Rightarrow> (val \<times> val) list" where
  "mapEntries h v = (case v of VRef a \<Rightarrow> (case deref h a of OMap kvs \<Rightarrow> kvs | _ \<Rightarrow> []) | _ \<Rightarrow> [])"

definition setElements :: "heap \<Rightarrow> val \<Rightarrow> val list" where
  "setElements h v = (case v of VRef a \<Rightarrow> (case deref h a of OSet xs \<Rightarrow> xs | _ \<Rightarrow> []) | _ \<Rightarrow> [])"

definition arrayElements :: "heap \<Rightarrow> val \<Rightarrow> val list" where
  "arrayElements h v = (case v of VRef a \<Rightarrow> (case deref h a of OArray xs \<Rightarrow> xs | _ \<Rightarrow> []) | _ \<Rightarrow> [])"

text \<open>Reading a key that is absent gives \<open>undefined\<close>.\<close>

definition getEntry :: "('k \<times> val) list \<Rightarrow> 'k \<Rightarrow> val" where
  "getEntry kvs k = (case map_of kvs k of Some v \<Rightarrow> v | None \<Rightarrow> VUndefined)"

text \<open>The node constructors of \<open>Visitor\<close>.\<close>

definition createObjectPropertyNode :: "val \<Rightarrow> string \<Rightarrow> node \<Rightarrow> nat option \<Rightarrow> node" where
  "createObjectPropertyNode v p obj pos = Node v (Some (PName p)) pos (Some obj)"

definition createMapElementNode :: "val \<Rightarrow> val \<Rightarrow> node \<Rightarrow> nat option \<Rightarrow> node" where
  "createMapElementNode v k m pos = Node v (Some (PKey k)) pos (Some m)"

definition createSetElementNode :: "val \<Rightarrow> node \<Rightarrow> nat option \<Rightarrow> node" where
  "createSetElementNode v s pos = Node v None pos (Some s)"

definition createArrayElementNode :: "val \<Rightarrow> nat \<Rightarrow> node \<Rightarrow> nat option \<Rightarrow> node" where
  "createArrayElementNode v i arr pos = Node v (Some (PIndex (int i))) pos (Some arr)"

definition visitObject ::
  "js \<Rightarrow> comparator \<Rightarrow> compareFn \<Rightarrow> node \<Rightarrow> node \<Rightarrow> compareContext \<Rightarrow> (vres \<times> compareContext) res" where
  "visitObject env this self lhs rhs ctx =
     (let lps = objectEntries (heap env) (nodeValue lhs);
          rps = objectEntries (heap env) (nodeValue rhs);
          lprops = map fst lps;
          rprops = map fst rps;
          sharedProps = filter (\<lambda>x. x \<in> set rprops) lprops;
          removedProps = filter (\<lambda>x. x \<notin> set rprops) lprops;
          addedProps = filter (\<lambda>x. x \<notin> set lprops) rprops
      in
      chain (visitEach (\<lambda>p c. noRhs env this c (createObjectPropertyNode (getEntry lps p) p lhs None))
                removedProps ctx) (\<lambda>ctx.
      chain (visitEach (\<lambda>p c. noLhs env this c (createObjectPropertyNode (getEntry rps p) p rhs None))
                addedProps ctx) (\<lambda>ctx.
      chain (visitEach (\<lambda>p c. self (Some (Node (getEntry lps p) (Some (PName p)) None (Some lhs)))
                                    (Some (createObjectPropertyNode (getEntry rps p) p rhs None)) c)
                sharedProps ctx) (\<lambda>ctx.
      ret (RBool False, ctx)))))"

text \<open>
  In \<open>visitMap\<close> and \<open>visitSet\<close> the variable \<open>strictOrdering\<close> is cleared by the first
  iteration of the removed and of the added loop, before it is read there.
\<close>

definition visitMap ::
  "js \<Rightarrow> comparator \<Rightarrow> compareFn \<Rightarrow> node \<Rightarrow> node \<Rightarrow> compareContext \<Rightarrow> (vres \<times> compareContext) res" where
  "visitMap env this self lhs rhs ctx =
     (let lm = mapEntries (heap env) (nodeValue lhs);
          rm = mapEntries (heap env) (nodeValue rhs);
          sharedProps = filter (\<lambda>k. k \<in> set (map fst rm)) (map fst lm);
          removedProps = filter (\<lambda>k. k \<notin> set (map fst rm)) (map fst lm);
          addedProps = filter (\<lambda>k. k \<notin> set (map fst lm)) (map fst rm);
          strictOrdering = (strictMapOrdering this \<and> removedProps = [] \<and> addedProps = [])
      in
      chain (visitEach (\<lambda>k c. noRhs env this c (createMapElementNode (getEntry lm k) k lhs None))
                removedProps ctx) (\<lambda>ctx.
      chain (visitEach (\<lambda>k c. noLhs env this c (createMapElementNode (getEntry rm k) k rhs None))
                addedProps ctx) (\<lambda>ctx.
      chain (visitEach (\<lambda>(i, k) c.
                   self (Some (Node (getEntry lm k) (Some (PKey k))
                                 (if strictOrdering then Some i else None) (Some lhs)))
                        (Some (createMapElementNode (getEntry rm k) k rhs None)) c)
                (enumerate 0 sharedProps) ctx) (\<lambda>ctx.
      ret (RBool False, ctx)))))"

definition visitSet ::
  "js \<Rightarrow> comparator \<Rightarrow> compareFn \<Rightarrow> node \<Rightarrow> node \<Rightarrow> compareContext \<Rightarrow> (vres \<times> compareContext) res" where
  "visitSet env this self lhs rhs ctx =
     (let ls = setElements (heap env) (nodeValue lhs);
          rs = setElements (heap env) (nodeValue rhs);
          sharedValues = filter (\<lambda>v. v \<in> set rs) ls;
          removedValues = filter (\<lambda>v. v \<notin> set rs) ls;
          addedValues = filter (\<lambda>v. v \<notin> set ls) rs;
          strictOrdering = (strictSetOrdering this \<and> removedValues = [] \<and> addedValues = [])
      in
      chain (visitEach (\<lambda>v c. noRhs env this c (createSetElementNode v lhs None))
                removedValues ctx) (\<lambda>ctx.
      chain (visitEach (\<lambda>v c. noLhs env this c (createSetElementNode v rhs None))
                addedValues ctx) (\<lambda>ctx.
      chain (visitEach (\<lambda>(i, v) c.
                   self (Some (Node v None (if strictOrdering then Some i else None) (Some lhs)))
                        (Some (createSetElementNode v rhs (if strictOrdering then Some i else None))) c)
                (rev (enumerate 0 sharedValues)) ctx) (\<lambda>ctx.
      ret (RBool False, ctx)))))"

text \<open>
  \<open>findIndexOf\<close>. The callback of \<open>sameType.find\<close> saves \<open>searching\<close> and
  \<open>searchResult\<close>, runs the comparison in search mode and restores both in its
  \<open>finally\<close> block; the value that \<open>compare\<close> returns is not used.
\<close>

record arrayMatch =
  lhIdx :: int
  rhIdx :: int

definition propertyIndex :: "node \<Rightarrow> int" where
  "propertyIndex n = (case property n of Some (PIndex i) \<Rightarrow> i | _ \<Rightarrow> -1)"

fun findFirst ::
  "compareFn \<Rightarrow> node \<Rightarrow> node list \<Rightarrow> compareContext \<Rightarrow> (node option \<times> compareContext) res" where
  "findFirst self elem [] ctx = ret (None, ctx)"
| "findFirst self elem (p # ps) ctx =
     (let prevSearching = searching ctx;
          prevResult = searchResult ctx
      in rbind (self (Some elem) (Some p) (ctx\<lparr>searchResult := None, searching := True\<rparr>))
           (\<lambda>(r, c).
              let hit = (case searchResult c of Some s \<Rightarrow> IS_EQUAL s | None \<Rightarrow> False);
                  c' = c\<lparr>searchResult := prevResult, searching := prevSearching\<rparr>
              in if hit then ret (Some p, c') else findFirst self elem ps c'))"

definition findIndexOf ::
  "js \<Rightarrow> compareFn \<Rightarrow> node \<Rightarrow> node list \<Rightarrow> int list \<Rightarrow> compareContext
   \<Rightarrow> (int \<times> int list \<times> compareContext) res" where
  "findIndexOf env self elem array matches ctx =
     (let sameType = filter (\<lambda>x. nodeTypeOf (heap env) x = nodeTypeOf (heap env) elem
                                  \<and> propertyIndex x \<notin> set matches) array
      in if sameType = [] then ret (-1, matches, ctx)
         else rbind (findFirst self elem sameType ctx)
                (\<lambda>(found, c).
                   case found of
                     Some p \<Rightarrow> ret (propertyIndex p, matches @ [propertyIndex p], c)
                   | None \<Rightarrow> ret (-1, matches, c)))"

text \<open>
  The first loop of the lax branch of \<open>visitArray\<close>: every left element, in index order,
  is looked up among the right elements that are not yet consumed.
\<close>

fun matchElements ::
  "js \<Rightarrow> compareFn \<Rightarrow> (nat \<times> node) list \<Rightarrow> node list \<Rightarrow> arrayMatch list \<Rightarrow> arrayMatch list
   \<Rightarrow> int list \<Rightarrow> compareContext
   \<Rightarrow> (arrayMatch list \<times> arrayMatch list \<times> int list \<times> compareContext) res" where
  "matchElements env self [] rhsElems sharedIdx removedIdx consumedRhsIdx ctx =
     ret (sharedIdx, removedIdx, consumedRhsIdx, ctx)"
| "matchElements env self ((i, l) # ls) rhsElems sharedIdx removedIdx consumedRhsIdx ctx =
     rbind (findIndexOf env self l rhsElems consumedRhsIdx ctx)
       (\<lambda>(rhIdx, consumed, c).
          if rhIdx < 0
          then matchElements env self ls rhsElems sharedIdx
                 (removedIdx @ [\<lparr>lhIdx = int i, rhIdx = -1\<rparr>]) consumed c
          else matchElements env self ls rhsElems
                 (sharedIdx @ [\<lparr>lhIdx = int i, rhIdx = rhIdx\<rparr>]) removedIdx consumed c)"

text \<open>Reading an array beyond its length gives \<open>undefined\<close>.\<close>

definition nthOpt :: "'a list \<Rightarrow> int \<Rightarrow> 'a option" where
  "nthOpt xs i = (if 0 \<le> i \<and> nat i < length xs then Some (xs ! nat i) else None)"

text \<open>
  \<open>noLhs\<close> and \<open>noRhs\<close> on an element read by index. The indices come from the arrays
  themselves; a read of \<open>undefined\<close> would fail in the path construction.
\<close>

definition withNode ::
  "(compareContext \<Rightarrow> node \<Rightarrow> (vres \<times> compareContext) res) \<Rightarrow> node option \<Rightarrow> compareContext
   \<Rightarrow> (vres \<times> compareContext) res" where
  "withNode f n ctx = (case n of Some x \<Rightarrow> f ctx x | None \<Rightarrow> throw TypeError)"

text \<open>
  \<open>visitArray\<close> in three parts: the element nodes that the two \<open>map\<close> calls create, the
  three emitting loops of the lax branch (over the sorted index lists), and the visitor.
\<close>

definition arrayElementNodes :: "js \<Rightarrow> comparator \<Rightarrow> node \<Rightarrow> node list" where
  "arrayElementNodes env this arr =
     map (\<lambda>(index, v). createArrayElementNode v index arr
            (if laxArrayOrdering this then None else Some index))
       (enumerate 0 (arrayElements (heap env) (nodeValue arr)))"

definition emitLax ::
  "js \<Rightarrow> comparator \<Rightarrow> compareFn \<Rightarrow> node list \<Rightarrow> node list \<Rightarrow> arrayMatch list \<Rightarrow> arrayMatch list
   \<Rightarrow> int list \<Rightarrow> compareContext \<Rightarrow> (vres \<times> compareContext) res" where
  "emitLax env this self lhsElems rhsElems sharedIdx removedIdx consumedRhsIdx ctx =
     (let addedIdx =
            (if length consumedRhsIdx < length rhsElems
             then map (\<lambda>i. \<lparr>lhIdx = -1, rhIdx = int i\<rparr>)
                    (filter (\<lambda>i. int i \<notin> set consumedRhsIdx) [0..<length rhsElems])
             else []);
          sharedIdx = sort_key (\<lambda>am. - lhIdx am) sharedIdx;
          removedIdx = sort_key (\<lambda>am. - lhIdx am) removedIdx;
          addedIdx = sort_key rhIdx addedIdx
      in
      chain (visitEach (\<lambda>am c. self (nthOpt lhsElems (lhIdx am)) (nthOpt rhsElems (rhIdx am)) c)
                sharedIdx ctx) (\<lambda>ctx.
      chain (visitEach (\<lambda>am c. withNode (noRhs env this) (nthOpt lhsElems (lhIdx am)) c)
                removedIdx ctx) (\<lambda>ctx.
      chain (visitEach (\<lambda>am c. withNode (noLhs env this) (nthOpt rhsElems (rhIdx am)) c)
                addedIdx ctx) (\<lambda>ctx.
      ret (RBool False, ctx)))))"

definition visitArray ::
  "js \<Rightarrow> comparator \<Rightarrow> compareFn \<Rightarrow> node \<Rightarrow> node \<Rightarrow> compareContext \<Rightarrow> (vres \<times> compareContext) res" where
  "visitArray env this self lhs rhs ctx =
     (let rhsElems = arrayElementNodes env this rhs;
          lhsElems = arrayElementNodes env this lhs
      in
      if laxArrayOrdering this
      then
        rbind (matchElements env self (enumerate 0 lhsElems) rhsElems [] [] [] ctx)
          (\<lambda>(sharedIdx, removedIdx, consumedRhsIdx, ctx).
             emitLax env this self lhsElems rhsElems sharedIdx removedIdx consumedRhsIdx ctx)
      else
        chain (visitEach (\<lambda>i c. self (nthOpt lhsElems (int i)) (nthOpt rhsElems (int i)) c)
                  (rev [0..<max (length lhsElems) (length rhsElems)]) ctx) (\<lambda>ctx.
        ret (RBool False, ctx)))"

section \<open>\<open>Visitor.visit\<close> as reached from \<open>Compare.compare\<close>, and \<open>compare\<close> itself\<close>

text \<open>
  \<open>super.visit(rhs, ctx)\<close>: the circular-reference guard, then the dispatch on the type
  of the right node, registering the value of a container before its visitor runs.
\<close>

definition superVisit ::
  "js \<Rightarrow> comparator \<Rightarrow> compareFn \<Rightarrow> node \<Rightarrow> node \<Rightarrow> compareContext \<Rightarrow> (vres \<times> compareContext) res" where
  "superVisit env this self lhs rhs ctx =
     (if hasReference (refs ctx) rhs then ret (RBool False, ctx)
      else
        let registered = (if guardCircularRefs this then ctx\<lparr>refs := addReference (refs ctx) rhs\<rparr> else ctx)
        in case nodeTypeOf (heap env) rhs of
             Ty_array \<Rightarrow> visitArray env this self lhs rhs registered
           | Ty_set \<Rightarrow> visitSet env this self lhs rhs registered
           | Ty_map \<Rightarrow> visitMap env this self lhs rhs registered
           | Ty_object \<Rightarrow> visitObject env this self lhs rhs registered
           | _ \<Rightarrow> visitOther env this lhs rhs ctx)"

definition compareStep ::
  "js \<Rightarrow> comparator \<Rightarrow> compareFn \<Rightarrow> compareFn" where
  "compareStep env this self lhs rhs ctx =
     (case lhs of
        None \<Rightarrow>
          (case rhs of
             Some r \<Rightarrow> noLhs env this ctx r
           | None \<Rightarrow> ret (areEqual ctx IS_SAME))
      | Some l \<Rightarrow>
          (case rhs of
             None \<Rightarrow> noRhs env this ctx l
           | Some r \<Rightarrow>
               if position l \<noteq> position r then notEqual env this ctx l r NOT_EQUAL
               else if objectIs (nodeValue l) (nodeValue r) then ret (areEqual ctx IS_SAME)
               else if nodeTypeOf (heap env) l = nodeTypeOf (heap env) r
                 then superVisit env this self l r ctx
               else if looseEquality this \<and> looseEq env (nodeValue l) (nodeValue r)
                 then ret (areEqual ctx IS_EQUAL_B)
               else if nodeTypeOf (heap env) l = Ty_undefined then noLhs env this ctx r
               else if nodeTypeOf (heap env) r = Ty_undefined then noRhs env this ctx l
               else notEqual env this ctx l r NOT_EQUAL))"

text \<open>
  \<open>Compare.compare\<close>. The fuel bounds the depth of the recursion; each nested call of
  \<open>this.compare\<close> has one unit less.
\<close>

primrec compare :: "js \<Rightarrow> comparator \<Rightarrow> nat \<Rightarrow> compareFn" where
  "compare env this 0 = (\<lambda>lhs rhs ctx. None)"
| "compare env this (Suc n) = compareStep env this (compare env this n)"

section \<open>\<open>Equal.equal\<close> and \<open>Diff.diff\<close>\<close>

definition equal :: "js \<Rightarrow> comparator \<Rightarrow> nat \<Rightarrow> val \<Rightarrow> val \<Rightarrow> bool option res" where
  "equal env this n lhs rhs =
     rbind (compare env (this\<lparr>algorithm := Equal\<rparr>) n (Some (rootNode lhs)) (Some (rootNode rhs))
              (createContext this))
       (\<lambda>(r, ctx). ret (case result ctx of Some c \<Rightarrow> Some (IS_EQUAL c) | None \<Rightarrow> None))"

definition diff :: "js \<Rightarrow> comparator \<Rightarrow> nat \<Rightarrow> val \<Rightarrow> val \<Rightarrow> change list res" where
  "diff env this n lhs rhs =
     rbind (compare env (this\<lparr>algorithm := Diff\<rparr>) n (Some (rootNode lhs)) (Some (rootNode rhs))
              (createContext this))
       (\<lambda>(r, ctx). ret (changes ctx))"

section \<open>The single-graph traversal (\<open>Visitor\<close> and \<open>Traverse\<close>)\<close>

text \<open>
  The children that the visitors of \<open>Visitor\<close> discover, in the order in which they are
  visited; every child has its index in that order as its position.
\<close>

definition childNodes :: "heap \<Rightarrow> node \<Rightarrow> node list" where
  "childNodes h n =
     (case nodeTypeOf h n of
        Ty_array \<Rightarrow>
          map (\<lambda>(i, v). createArrayElementNode v i n (Some i)) (enumerate 0 (arrayElements h (nodeValue n)))
      | Ty_set \<Rightarrow>
          map (\<lambda>(i, v). createSetElementNode v n (Some i)) (enumerate 0 (setElements h (nodeValue n)))
      | Ty_map \<Rightarrow>
          map (\<lambda>(i, (k, v)). createMapElementNode v k n (Some i)) (enumerate 0 (mapEntries h (nodeValue n)))
      | Ty_object \<Rightarrow>
          map (\<lambda>(i, p). createObjectPropertyNode (getEntry (objectEntries h (nodeValue n)) p) p n (Some i))
            (enumerate 0 (map fst (objectEntries h (nodeValue n))))
      | _ \<Rightarrow> [])"

definition isContainer :: "kind \<Rightarrow> bool" where
  "isContainer t = (t = Ty_array \<or> t = Ty_set \<or> t = Ty_map \<or> t = Ty_object)"

text \<open>
  What a traversal callback returns: a boolean (descend or not), an array of nodes to
  visit in place of the children, or any other truthy value, which aborts the traversal.
  Callbacks that return a wrapper function are not modelled.
\<close>

datatype cbResult = CbBool bool | CbChildren "node list" | CbStop node

type_synonym visitFn = "node \<Rightarrow> val list option \<Rightarrow> (vres \<times> val list option) res"

text \<open>
  \<open>Traverse.visitNode\<close>. The third argument is the list of children when the source
  passes a \<open>childVisitorFn\<close>; the child visitor returns \<open>true\<close> after its loop.
\<close>

definition traverseVisitNode ::
  "(node \<Rightarrow> cbResult) option \<Rightarrow> visitFn \<Rightarrow> node \<Rightarrow> val list option \<Rightarrow> node list option
   \<Rightarrow> (vres \<times> val list option) res" where
  "traverseVisitNode callback self n rs children =
     (case (case callback of Some cb \<Rightarrow> cb n | None \<Rightarrow> CbBool True) of
        CbChildren ns \<Rightarrow> chain (visitEach self ns rs) (\<lambda>rs. ret (RBool False, rs))
      | CbStop x \<Rightarrow> ret (RNode x, rs)
      | CbBool b \<Rightarrow>
          (case children of
             Some cs \<Rightarrow>
               (if b then chain (visitEach self cs rs) (\<lambda>rs. ret (RBool True, rs))
                else ret (RBool b, rs))
           | None \<Rightarrow> ret (RBool b, rs)))"

text \<open>\<open>Visitor.visit\<close> with the visitors of \<open>Visitor\<close> and the \<open>visitNode\<close> of \<open>Traverse\<close>.\<close>

definition visitStep ::
  "heap \<Rightarrow> bool \<Rightarrow> (node \<Rightarrow> cbResult) option \<Rightarrow> visitFn \<Rightarrow> visitFn" where
  "visitStep h guard callback self n rs =
     (if hasReference rs n then ret (RBool False, rs)
      else if isContainer (nodeTypeOf h n)
      then traverseVisitNode callback self n (if guard then addReference rs n else rs)
             (Some (childNodes h n))
      else traverseVisitNode callback self n rs None)"

primrec visit :: "heap \<Rightarrow> bool \<Rightarrow> (node \<Rightarrow> cbResult) option \<Rightarrow> nat \<Rightarrow> visitFn" where
  "visit h guard callback 0 = (\<lambda>n rs. None)"
| "visit h guard callback (Suc k) = visitStep h guard callback (visit h guard callback k)"

text \<open>\<open>Traverse.traverse\<close>: \<open>null\<close> when the traversal completes, else the aborting value.\<close>

definition traverse ::
  "heap \<Rightarrow> bool \<Rightarrow> (node \<Rightarrow> cbResult) option \<Rightarrow> nat \<Rightarrow> val \<Rightarrow> node option res" where
  "traverse h guard callback k v =
     rbind (visit h guard callback k (rootNode v) (if guard then Some [] else None))
       (\<lambda>(r, rs). ret (case r of RNode x \<Rightarrow> Some x | RBool b \<Rightarrow> None))"

section \<open>The copy algorithm (\<open>Copy\<close>)\<close>

record copyContext = visitorContext +
  refMirrors :: "val list option"

text \<open>
  A copy allocates objects and writes into the objects it allocated, so its state is the
  heap together with the context.
\<close>

type_synonym copyState = "heap \<times> copyContext"

definition alloc :: "heap \<Rightarrow> obj \<Rightarrow> val \<times> heap" where
  "alloc h ob = (VRef (length h), h @ [ob])"

text \<open>
  \<open>defaultCreateCopy\<close>. The slots of \<open>new Array(n)\<close> are read as \<open>undefined\<close>. A view is
  copied by \<open>o.slice()\<close>: for a typed array that is a typed array on a fresh buffer with the
  bytes the original shows; a \<open>DataView\<close> has no method \<open>slice\<close>, and the call throws a
  TypeError.
\<close>

definition defaultCreateCopy :: "heap \<Rightarrow> val \<Rightarrow> error + (val \<times> heap)" where
  "defaultCreateCopy h v =
     (case v of
        VRef a \<Rightarrow>
          (case deref h a of
             OArray xs \<Rightarrow> Inr (alloc h (OArray (replicate (length xs) VUndefined)))
           | ODate t \<Rightarrow> Inr (alloc h (ODate t))
           | OMap kvs \<Rightarrow> Inr (alloc h (OMap []))
           | OSet xs \<Rightarrow> Inr (alloc h (OSet []))
           | ORegExp r \<Rightarrow> Inr (alloc h (ORegExp r))
           | OView k b off len \<Rightarrow>
               (case k of
                  TypedArray \<Rightarrow>
                    (let (buf, h') = alloc h (OBuffer (viewBytes h b off len))
                     in Inr (alloc h' (OView TypedArray (length h) 0 len)))
                | DataView \<Rightarrow> Inl TypeError)
           | OBuffer bs \<Rightarrow> Inr (alloc h (OBuffer bs))
           | OObject ps \<Rightarrow> Inr (alloc h (OObject []))
           | OFunction \<Rightarrow> Inr (v, h))
      | _ \<Rightarrow> Inr (v, h))"

text \<open>
  \<open>CopyNode\<close>: a node with the function that attaches its mirror to the mirror of its
  parent. The mirror of the parent is assigned before the children are created, so the
  child carries it.
\<close>

datatype addChildFn = AddObjectProperty | AddMapElement | AddSetElement | AddArrayElement

record copyNode =
  graphNode :: node
  addChild :: "(addChildFn \<times> val) option"

fun updateEntry :: "('k \<times> val) list \<Rightarrow> 'k \<Rightarrow> val \<Rightarrow> ('k \<times> val) list" where
  "updateEntry [] k v = [(k, v)]"
| "updateEntry ((k', v') # kvs) k v = (if k' = k then (k, v) # kvs else (k', v') # updateEntry kvs k v)"

text \<open>Writing an array slot at or beyond the length extends the array.\<close>

definition setIndex :: "val list \<Rightarrow> nat \<Rightarrow> val \<Rightarrow> val list" where
  "setIndex xs i v = (if i < length xs then xs[i := v] else xs @ replicate (i - length xs) VUndefined @ [v])"

definition applyAddChild :: "heap \<Rightarrow> addChildFn \<Rightarrow> val \<Rightarrow> node \<Rightarrow> val \<Rightarrow> heap" where
  "applyAddChild h fn parentMirror child childMirror =
     (case parentMirror of
        VRef m \<Rightarrow>
          (if m < length h then
             (case (fn, h ! m, property child) of
                (AddObjectProperty, OObject ps, Some (PName p)) \<Rightarrow> h[m := OObject (updateEntry ps p childMirror)]
              | (AddMapElement, OMap kvs, Some (PKey k)) \<Rightarrow> h[m := OMap (updateEntry kvs k childMirror)]
              | (AddSetElement, OSet xs, _) \<Rightarrow>
                  h[m := OSet (if childMirror \<in> set xs then xs else xs @ [childMirror])]
              | (AddArrayElement, OArray xs, Some (PIndex i)) \<Rightarrow> h[m := OArray (setIndex xs (nat i) childMirror)]
              | _ \<Rightarrow> h)
           else h)
      | _ \<Rightarrow> h)"

text \<open>The children of a node with mirror \<open>m\<close>, as the overridden node constructors make them.\<close>

definition copyChildren :: "heap \<Rightarrow> node \<Rightarrow> val \<Rightarrow> copyNode list" where
  "copyChildren h n m =
     (let fn = (case nodeTypeOf h n of
                  Ty_array \<Rightarrow> AddArrayElement | Ty_set \<Rightarrow> AddSetElement
                | Ty_map \<Rightarrow> AddMapElement | _ \<Rightarrow> AddObjectProperty)
      in map (\<lambda>c. \<lparr>graphNode = c, addChild = Some (fn, m)\<rparr>) (childNodes h n))"

type_synonym copyFn = "copyNode \<Rightarrow> copyState \<Rightarrow> (vres \<times> copyState) res"

text \<open>
  \<open>Copy.visitNode\<close>: the \<open>try\<close> block gives the mirror of the node and the value that
  is returned; the \<open>finally\<close> block attaches the mirror to the parent's mirror.
\<close>

definition copyFinally :: "copyNode \<Rightarrow> val \<Rightarrow> copyState \<Rightarrow> copyState" where
  "copyFinally cn mirror st =
     (case addChild cn of
        Some (fn, parentMirror) \<Rightarrow> (applyAddChild (fst st) fn parentMirror (graphNode cn) mirror, snd st)
      | None \<Rightarrow> st)"

definition setMirror :: "val list \<Rightarrow> nat \<Rightarrow> val \<Rightarrow> val list" where
  "setMirror ms i v = setIndex ms i v"

definition copyVisitNode ::
  "bool \<Rightarrow> copyFn \<Rightarrow> copyNode \<Rightarrow> copyState \<Rightarrow> bool \<Rightarrow> (vres \<times> val \<times> copyState) res" where
  "copyVisitNode guard self cn st hasChildren =
     (let h = fst st; ctx = snd st; n = graphNode cn;
          idx = (if guard then indexOfReference (refs ctx) n else -1);
          mirrors = (case refMirrors ctx of Some ms \<Rightarrow> ms | None \<Rightarrow> [])
      in
      if guard \<and> idx \<ge> 0 \<and> nat idx < length mirrors
      then (let mirror = mirrors ! nat idx
            in ret (RBool False, mirror, copyFinally cn mirror st))
      else
        (case defaultCreateCopy h (nodeValue n) of
           Inl e \<Rightarrow> throw e
         | Inr (mirror, h1) \<Rightarrow>
             (let ctx1 = (if guard \<and> idx \<ge> 0
                          then ctx\<lparr>refMirrors := Some (setMirror mirrors (nat idx) mirror)\<rparr>
                          else ctx)
              in
              if hasChildren
              then rbind (visitEach self (copyChildren h1 n mirror) (h1, ctx1))
                     (\<lambda>(r, st2).
                        ret (case r of RNode x \<Rightarrow> RNode x | RBool b \<Rightarrow> RBool True,
                             mirror, copyFinally cn mirror st2))
              else ret (RBool True, mirror, copyFinally cn mirror (h1, ctx1)))))"

text \<open>
  \<open>Visitor.visit\<close> for a copy. The guard returns before \<open>visitNode\<close> is reached, so a
  node whose value is already registered gets no mirror and its \<open>finally\<close> block never
  runs.
\<close>

definition copyVisitStep ::
  "bool \<Rightarrow> copyFn \<Rightarrow> copyNode \<Rightarrow> copyState \<Rightarrow> (vres \<times> val option \<times> copyState) res" where
  "copyVisitStep guard self cn st =
     (let h = fst st; ctx = snd st; n = graphNode cn
      in
      if hasReference (refs ctx) n then ret (RBool False, None, st)
      else if isContainer (nodeTypeOf h n)
      then rbind (copyVisitNode guard self cn
                    (h, if guard then ctx\<lparr>refs := addReference (refs ctx) n\<rparr> else ctx) True)
             (\<lambda>(r, m, st'). ret (r, Some m, st'))
      else rbind (copyVisitNode guard self cn st False)
             (\<lambda>(r, m, st'). ret (r, Some m, st')))"

primrec copyVisit ::
  "bool \<Rightarrow> nat \<Rightarrow> copyNode \<Rightarrow> copyState \<Rightarrow> (vres \<times> val option \<times> copyState) res" where
  "copyVisit guard 0 = (\<lambda>cn st. None)"
| "copyVisit guard (Suc k) =
     copyVisitStep guard (\<lambda>cn st. rbind (copyVisit guard k cn st) (\<lambda>(r, m, st'). ret (r, st')))"

text \<open>\<open>Copy.copy\<close>: the mirror of the root, with the heap after the copy.\<close>

definition copy :: "heap \<Rightarrow> bool \<Rightarrow> nat \<Rightarrow> val \<Rightarrow> (val \<times> heap) res" where
  "copy h guard k v =
     rbind (copyVisit guard k \<lparr>graphNode = rootNode v, addChild = None\<rparr>
              (h, \<lparr>refs = (if guard then Some [] else None),
                   refMirrors = (if guard then Some [] else None)\<rparr>))
       (\<lambda>(r, m, st).
          ret (case r of
                 RBool b \<Rightarrow> (case m of Some x \<Rightarrow> x | None \<Rightarrow> VUndefined)
               | RNode x \<Rightarrow> VUndefined,
               fst st))"

section \<open>Applying changes (the patch model)\<close>










section \<open>A concrete environment and the default options\<close>

text \<open>
  An environment whose \<open>localeCompare\<close> only tells equal strings from different ones, and
  the options an algorithm has when none are given.
\<close>

definition simpleEnv :: "heap \<Rightarrow> js" where
  "simpleEnv h =
     \<lparr>heap = h, localeCompare = (\<lambda>a b. if a = b then 0 else 1), looseEq = (=),
      jsonStringify = (\<lambda>v. [])\<rparr>"

definition defaultOptions :: comparator where
  "defaultOptions =
     \<lparr>algorithm = Diff, guardCircularRefs = False, looseEquality = False, epsilon = None,
      laxArrayOrdering = False, strictMapOrdering = False, strictSetOrdering = False\<rparr>"

text \<open>
  Four empty objects at addresses 0 to 3, three objects \<open>{p: _, q: _}\<close> over them at 4 to
  6, and at 7 and 8 two arrays holding those three objects in different orders.
\<close>

definition permutedHeap :: heap where
  "permutedHeap =
     [OObject [], OObject [], OObject [], OObject [],
      OObject [(''p'', VRef 0), (''q'', VRef 3)],
      OObject [(''p'', VRef 0), (''q'', VRef 2)],
      OObject [(''p'', VRef 1), (''q'', VRef 2)],
      OArray [VRef 5, VRef 6, VRef 4],
      OArray [VRef 4, VRef 5, VRef 6]]"

section \<open>Relations between the context before and after a call\<close>

text \<open>
  \<open>keeps R f\<close>: whenever \<open>f\<close> returns, the contexts before and after are related by \<open>R\<close>.
\<close>

definition keeps :: "('s \<Rightarrow> 's \<Rightarrow> bool) \<Rightarrow> ('s \<Rightarrow> (vres \<times> 's) res) \<Rightarrow> bool" where
  "keeps R f = (\<forall>c v c'. f c = Some (Inr (v, c')) \<longrightarrow> R c c')"

text \<open>
  \<open>searchFrame\<close>: a call made in search mode stays in search mode and leaves the result and
  the changes of the enclosing comparison alone. \<open>sameOutcome\<close>: all four fields that
  record outcomes are unchanged.
\<close>

definition searchFrame :: "compareContext \<Rightarrow> compareContext \<Rightarrow> bool" where
  "searchFrame c c' = (searching c \<longrightarrow> searching c' \<and> result c' = result c \<and> changes c' = changes c)"

definition sameOutcome :: "compareContext \<Rightarrow> compareContext \<Rightarrow> bool" where
  "sameOutcome c c' =
     (result c' = result c \<and> changes c' = changes c \<and> searching c' = searching c
      \<and> searchResult c' = searchResult c)"

text \<open>
  \<open>invariantFor env this R P\<close>: the relation \<open>R\<close> is transitive, holds between contexts
  with the same outcome fields, and is kept by the four outcome hooks on nodes that
  satisfy \<open>P\<close>; \<open>P\<close> passes from a node to its children.
\<close>

definition invariantFor ::
  "js \<Rightarrow> comparator \<Rightarrow> (compareContext \<Rightarrow> compareContext \<Rightarrow> bool) \<Rightarrow> (node \<Rightarrow> bool) \<Rightarrow> bool" where
  "invariantFor env this R P =
     (transp R
      \<and> (\<forall>c c'. sameOutcome c c' \<longrightarrow> R c c')
      \<and> (\<forall>v p pos n. P n \<longrightarrow> P (Node v p pos (Some n)))
      \<and> (\<forall>x. keeps R (\<lambda>c. ret (areEqual c x)))
      \<and> (\<forall>l r x. P l \<longrightarrow> P r \<longrightarrow> keeps R (\<lambda>c. notEqual env this c l r x))
      \<and> (\<forall>x. P x \<longrightarrow> keeps R (\<lambda>c. noLhs env this c x))
      \<and> (\<forall>x. P x \<longrightarrow> keeps R (\<lambda>c. noRhs env this c x)))"

section \<open>Leaves, and objects whose properties are leaves\<close>

text \<open>
  \<open>primitive v\<close>: the value is a primitive other than \<open>undefined\<close>.
  \<open>leafSame l r\<close>: the comparison of two such values ends in \<open>areEqual\<close>: they are
  identical, or of one kind with a result that signifies equality, or of two kinds and
  loosely equal with \<open>looseEquality\<close> set.
  \<open>registeredRefs c\<close>: every value in the visited list is a reference to an object.
\<close>

definition primitive :: "val \<Rightarrow> bool" where
  "primitive v = (case v of VUndefined \<Rightarrow> False | VRef a \<Rightarrow> False | _ \<Rightarrow> True)"

definition leafSame :: "js \<Rightarrow> comparator \<Rightarrow> val \<Rightarrow> val \<Rightarrow> bool" where
  "leafSame env this l r =
     (objectIs l r
      \<or> (if updateNodeTypeOf [] l = updateNodeTypeOf [] r
          then (case leafResult env this (updateNodeTypeOf [] r) l r of
                  Some c \<Rightarrow> IS_EQUAL c
                | None \<Rightarrow> True)
          else looseEquality this \<and> looseEq env l r))"

definition registeredRefs :: "compareContext \<Rightarrow> bool" where
  "registeredRefs c = (\<forall>v \<in> set (case refs c of Some xs \<Rightarrow> xs | None \<Rightarrow> []). \<exists>a. v = VRef a)"


definition propertySegment :: "string \<Rightarrow> pathSegment" where
  "propertySegment k = \<lparr>typeOf = Ty_object, segment = Some (PName k)\<rparr>"

definition objectChanges :: "js \<Rightarrow> comparator \<Rightarrow> (string \<times> val) list \<Rightarrow> (string \<times> val) list \<Rightarrow> change list" where
  "objectChanges env this pa pb =
     map (\<lambda>k. RemoveFromLhs [propertySegment k]) (filter (\<lambda>k. k \<notin> set (map fst pb)) (map fst pa))
     @ map (\<lambda>k. AddToLhs [propertySegment k] (getEntry pb k)) (filter (\<lambda>k. k \<notin> set (map fst pa)) (map fst pb))
     @ concat (map (\<lambda>k. if leafSame env this (getEntry pa k) (getEntry pb k) then []
                         else [EditLhs [propertySegment k] (getEntry pb k)])
                 (filter (\<lambda>k. k \<in> set (map fst pb)) (map fst pa)))"






section \<open>The array index that a change addresses\<close>

text \<open>
  \<open>indexUnder pre ch\<close>: the path of the change \<open>ch\<close> runs through the array at path \<open>pre\<close>,
  and this is the index of that array under which the change lies. Where the segment
  into the array is the last one of an addition, it holds the insert marker \<open>-i - 1\<close>,
  which is decoded.
\<close>

fun changePath :: "change \<Rightarrow> pathSegment list" where
  "changePath (RemoveFromLhs p) = p"
| "changePath (AddToLhs p v) = p"
| "changePath (EditLhs p v) = p"

fun isAddition :: "change \<Rightarrow> bool" where
  "isAddition (AddToLhs p v) = True"
| "isAddition ch = False"

definition indexUnder :: "pathSegment list \<Rightarrow> change \<Rightarrow> int option" where
  "indexUnder pre ch =
     (let p = changePath ch; d = length pre
      in if take d p = pre \<and> d < length p \<and> typeOf (p ! d) = Ty_array
         then (case segment (p ! d) of
                 Some (PIndex i) \<Rightarrow> Some (if isAddition ch \<and> length p = Suc d then - i - 1 else i)
               | _ \<Rightarrow> None)
         else None)"

text \<open>
  \<open>emitsAt pre i\<close>: the call appends changes that all lie under index \<open>i\<close> of the array at
  \<open>pre\<close>.
  \<open>underIndex pre i n\<close>: the path of node \<open>n\<close> runs through index \<open>i\<close> of the array at \<open>pre\<close>.
  \<open>emitsDescending pre is\<close>: the call appends changes whose indices under \<open>pre\<close> are taken
  from \<open>is\<close> and never increase along the list.
\<close>

definition emitsAt :: "pathSegment list \<Rightarrow> int \<Rightarrow> compareContext \<Rightarrow> compareContext \<Rightarrow> bool" where
  "emitsAt pre i c c' =
     (\<exists>new. changes c' = changes c @ new \<and> (\<forall>ch \<in> set new. indexUnder pre ch = Some i))"

definition underIndex :: "js \<Rightarrow> comparator \<Rightarrow> pathSegment list \<Rightarrow> int \<Rightarrow> node \<Rightarrow> bool" where
  "underIndex env this pre i n =
     (\<exists>s rest. makePath env this n = pre @ s # rest \<and> typeOf s = Ty_array \<and> segment s = Some (PIndex i))"

definition emitsDescending ::
  "pathSegment list \<Rightarrow> nat list \<Rightarrow> compareContext \<Rightarrow> compareContext \<Rightarrow> bool" where
  "emitsDescending pre is c c' =
     (\<exists>new js. changes c' = changes c @ new \<and> map (indexUnder pre) new = map Some js
        \<and> sorted_wrt (\<ge>) js \<and> (\<forall>j \<in> set js. \<exists>i \<in> set is. j = int i))"

text \<open>
  \<open>surplusChanges pre ls rs\<close>: for the indices that only the longer of the two arrays has,
  from the last one down: the removal of the left element, or the addition of the right
  element with the insert marker.
  \<open>leafEdits pre ls rs\<close>: for the indices that both arrays have, from the last one down: an
  edit where the two elements do not compare as equal.
\<close>

definition arraySegment :: "int \<Rightarrow> pathSegment" where
  "arraySegment i = \<lparr>typeOf = Ty_array, segment = Some (PIndex i)\<rparr>"

definition surplusChanges :: "pathSegment list \<Rightarrow> val list \<Rightarrow> val list \<Rightarrow> change list" where
  "surplusChanges pre ls rs =
     map (\<lambda>i. if i < length ls then RemoveFromLhs (pre @ [arraySegment (int i)])
              else AddToLhs (pre @ [arraySegment (- int i - 1)]) (rs ! i))
       (rev [min (length ls) (length rs)..<max (length ls) (length rs)])"

definition leafEdits :: "js \<Rightarrow> comparator \<Rightarrow> pathSegment list \<Rightarrow> val list \<Rightarrow> val list \<Rightarrow> change list" where
  "leafEdits env this pre ls rs =
     concat (map (\<lambda>i. if leafSame env this (ls ! i) (rs ! i) then []
                       else [EditLhs (pre @ [arraySegment (int i)]) (rs ! i)])
               (rev [0..<min (length ls) (length rs)]))"

text \<open>
  Two objects \<open>{x: [1, 2, 3, 4]}\<close> and \<open>{x: [1, 5]}\<close>, and the nodes of the two arrays as
  \<open>visitObject\<close> makes them.
\<close>

definition nestedArraysHeap :: heap where
  "nestedArraysHeap =
     [OObject [(''x'', VRef 1)],
      OArray [VNumber (Num 1), VNumber (Num 2), VNumber (Num 3), VNumber (Num 4)],
      OObject [(''x'', VRef 3)],
      OArray [VNumber (Num 1), VNumber (Num 5)]]"

definition leftArrayNode :: node where
  "leftArrayNode = Node (VRef 1) (Some (PName ''x'')) None (Some (rootNode (VRef 0)))"

definition rightArrayNode :: node where
  "rightArrayNode = Node (VRef 3) (Some (PName ''x'')) None (Some (rootNode (VRef 2)))"

section \<open>Notions for termination under the circular-reference guard\<close>

text \<open>
  \<open>unvisited h rs\<close> counts the objects of the heap that are not in the visited list.
  \<open>refsGrow\<close>: both lists are defined and the second holds every value of the first.
  \<open>returnsFrom g st c f\<close>: the call \<open>f c\<close> returns or throws, and when it returns the
  visited list has grown (\<open>g\<close> reads the list from a state, \<open>st\<close> the state from a result).
  \<open>finishes g st c0 f\<close>: that holds from every state whose list holds the one of \<open>c0\<close>.
\<close>

definition unvisited :: "heap \<Rightarrow> val list option \<Rightarrow> nat" where
  "unvisited h rs =
     length (filter (\<lambda>a. VRef a \<notin> set (case rs of Some xs \<Rightarrow> xs | None \<Rightarrow> [])) [0..<length h])"

definition refsGrow :: "val list option \<Rightarrow> val list option \<Rightarrow> bool" where
  "refsGrow rs rs' = (\<exists>xs ys. rs = Some xs \<and> rs' = Some ys \<and> set xs \<subseteq> set ys)"

definition returnsFrom ::
  "('s \<Rightarrow> val list option) \<Rightarrow> ('r \<Rightarrow> 's) \<Rightarrow> 's \<Rightarrow> ('s \<Rightarrow> 'r res) \<Rightarrow> bool" where
  "returnsFrom g st c f = (\<exists>y. f c = Some y \<and> (\<forall>r. y = Inr r \<longrightarrow> refsGrow (g c) (g (st r))))"

definition finishes ::
  "('s \<Rightarrow> val list option) \<Rightarrow> ('r \<Rightarrow> 's) \<Rightarrow> 's \<Rightarrow> ('s \<Rightarrow> 'r res) \<Rightarrow> bool" where
  "finishes g st c0 f =
     (\<forall>c. refsGrow (g c0) (g c) \<longrightarrow>
        (\<exists>y. f c = Some y \<and> (\<forall>r. y = Inr r \<longrightarrow> refsGrow (g c) (g (st r)))))"

text \<open>A callback that never answers with an explicit list of children.\<close>

definition noExplicitChildren :: "(node \<Rightarrow> cbResult) option \<Rightarrow> bool" where
  "noExplicitChildren callback = (\<forall>cb n ns. callback = Some cb \<longrightarrow> cb n \<noteq> CbChildren ns)"

text \<open>Two objects, each with a property \<open>self\<close> that refers to the object itself.\<close>

definition twoCyclesHeap :: heap where
  "twoCyclesHeap = [OObject [(''self'', VRef 0)], OObject [(''self'', VRef 1)]]"

section \<open>Basic facts\<close>

lemma objTypeOf_defined [simp]: "objTypeOf ob \<noteq> Ty_undefined"
  by (cases ob) simp_all

lemma updateNodeTypeOf_undefined [simp]:
  "(updateNodeTypeOf h v = Ty_undefined) = (v = VUndefined)"
  "(Ty_undefined = updateNodeTypeOf h v) = (v = VUndefined)"
  by (cases v; simp; metis objTypeOf_defined)+

text \<open>The number case always ends in its last statement: the result is never an equality.\<close>

lemma viewReadFails_other [simp]: "t \<noteq> Ty_view \<Longrightarrow> \<not> viewReadFails env t l r"
  by (cases t) (simp_all add: viewReadFails_def)

lemma viewReadFails_refs: "viewReadFails env t l r \<Longrightarrow> \<exists>a b. l = VRef a \<and> r = VRef b"
  by (cases t; cases l; cases r) (simp_all add: viewReadFails_def)

lemma compareNumbers_result: "compareNumbers this l r = Some (if numLess l r then IS_LT else IS_GT)"
  by (simp add: compareNumbers_def)

lemma numLess_NaN [simp]: "\<not> numLess NaN r" "\<not> numLess l NaN"
  by (cases r; simp) (cases l; simp)

section \<open>Comparing a value with itself\<close>

text \<open>
  Claim C2. For every value \<open>g\<close>, \<open>equal(g, g)\<close> is true and \<open>diff(g, g)\<close> is the empty
  list: the comparison of the two root nodes stops at the identity test, records
  \<open>IS_SAME\<close> as the result and no change. This holds for every environment, every
  setting of the options and every positive recursion budget.
\<close>

theorem equal_and_diff_of_same_value:
  "equal env this (Suc n) g g = Some (Inr (Some True)) \<and> diff env this (Suc n) g g = Some (Inr [])
   \<and> compare env this (Suc n) (Some (rootNode g)) (Some (rootNode g)) (createContext this)
       = Some (Inr (RBool False, (createContext this)\<lparr>result := Some IS_SAME\<rparr>))"
  by (simp add: equal_def diff_def compareStep_def objectIs_def areEqual_def createContext_def
        ret_def IS_SAME_def)

section \<open>Number leaves\<close>

text \<open>
  Claim C3, as stated, fails: comparing the number leaves \<open>NaN\<close> and \<open>0\<close> gives \<open>IS_GT\<close>,
  which is not an equality, and \<open>diff(NaN, 0)\<close> is one edit.
\<close>

theorem nan_against_number_counterexample:
  "leafResult (simpleEnv []) defaultOptions Ty_number (VNumber NaN) (VNumber (Num 0)) = Some IS_GT
   \<and> \<not> IS_EQUAL IS_GT
   \<and> diff (simpleEnv []) defaultOptions 1 (VNumber NaN) (VNumber (Num 0))
       = Some (Inr [EditLhs [] (VNumber (Num 0))])"
  by code_simp

text \<open>
  Claim C3, amended. When two number leaves reach \<open>visitOther\<close> and at least one of them
  is \<open>NaN\<close>, the outcome is not-equal with the result \<open>IS_GT\<close>. Two \<open>NaN\<close> leaves at the
  same position do not reach \<open>visitOther\<close>: \<open>compare\<close> finds them identical.
\<close>

theorem nan_number_leaves:
  assumes "nodeValue l = VNumber a" and "nodeValue r = VNumber b" and "isNaN a \<or> isNaN b"
  shows "visitOther env this l r ctx = notEqual env this ctx l r IS_GT
         \<and> (a = b \<and> position l = position r \<longrightarrow>
              compare env this (Suc n) (Some l) (Some r) ctx = ret (areEqual ctx IS_SAME))"
  using assms
  by (auto simp add: visitOther_def leafResult_def nodeTypeOf_def compareNumbers_result isNaN_def
        IS_GT_def compareStep_def objectIs_def)

theorem nan_number_leaves_witness:
  "visitOther (simpleEnv []) defaultOptions (rootNode (VNumber NaN)) (rootNode (VNumber NaN))
       (createContext defaultOptions)
     = notEqual (simpleEnv []) defaultOptions (createContext defaultOptions)
         (rootNode (VNumber NaN)) (rootNode (VNumber NaN)) IS_GT
   \<and> compare (simpleEnv []) defaultOptions (Suc 0) (Some (rootNode (VNumber NaN)))
         (Some (rootNode (VNumber NaN))) (createContext defaultOptions)
     = ret (areEqual (createContext defaultOptions) IS_SAME)"
  using nan_number_leaves [of "rootNode (VNumber NaN)" NaN "rootNode (VNumber NaN)" NaN
      "simpleEnv []" defaultOptions "createContext defaultOptions" 0]
  by (simp add: rootNode_def isNaN_def)

text \<open>
  Claim C4 does not hold of the code. With \<open>epsilon = 0.5\<close> the numbers 1 and 1.25 differ
  by less than the tolerance, yet \<open>equal\<close> returns false and \<open>diff\<close> reports an edit:
  the result \<open>IS_EQUAL_N\<close> of the tolerance test is overwritten by the ordering test that
  follows it.
\<close>

theorem close_numbers_reported_different:
  "equal (simpleEnv []) (defaultOptions\<lparr>epsilon := Some (1 / 2)\<rparr>) (Suc n)
       (VNumber (Num 1)) (VNumber (Num (5 / 4)))
     = Some (Inr (Some False))
   \<and> diff (simpleEnv []) (defaultOptions\<lparr>epsilon := Some (1 / 2)\<rparr>) (Suc n)
       (VNumber (Num 1)) (VNumber (Num (5 / 4)))
     = Some (Inr [EditLhs [] (VNumber (Num (5 / 4)))])
   \<and> absDiffLess (Num 1) (Num (5 / 4)) (1 / 2)"
  by (simp add: equal_def diff_def compareStep_def objectIs_def rootNode_def nodeTypeOf_def
        superVisit_def hasReference_def indexOfReference_def createContext_def defaultOptions_def
        visitOther_def leafResult_def compareNumbers_result IS_LT_def notEqual_def ret_def
        createEdit_def)

section \<open>An addition at the root\<close>

text \<open>
  Claim C10. When the left root is \<open>undefined\<close> and the right root is a defined value
  (and loose equality does not equate the two), \<open>diff\<close> does not return a change list:
  \<open>createAdd\<close> reads the last segment of the empty path of the root and the call ends in
  a TypeError.
\<close>

theorem diff_root_addition_throws:
  assumes "v \<noteq> VUndefined" and "\<not> (looseEquality this \<and> looseEq env VUndefined v)"
  shows "diff env this (Suc n) VUndefined v = Some (Inl TypeError)"
  using assms
  by (auto simp add: diff_def compareStep_def objectIs_def rootNode_def nodeTypeOf_def noLhs_def
        createAdd_def createContext_def throw_def)

theorem diff_root_addition_throws_witness:
  "VNumber (Num 5) \<noteq> VUndefined
   \<and> \<not> (looseEquality defaultOptions \<and> looseEq (simpleEnv []) VUndefined (VNumber (Num 5)))
   \<and> diff (simpleEnv []) defaultOptions (Suc 0) VUndefined (VNumber (Num 5)) = Some (Inl TypeError)"
  using diff_root_addition_throws [of "VNumber (Num 5)" defaultOptions "simpleEnv []" 0]
  by (simp add: defaultOptions_def)

section \<open>Lax array ordering on a permutation\<close>

text \<open>
  Claim C5 does not hold of the code. The arrays at addresses 7 and 8 of \<open>permutedHeap\<close>
  hold the same three objects in different orders, and with \<open>laxArrayOrdering\<close> the diff
  is a removal and an addition. The first left element is matched with a right element
  that is equal to it but is not the same object; the left element that is that object
  is then compared with a candidate from which it differs only in empty objects, a
  comparison that records no outcome and is taken for a mismatch.
\<close>

theorem lax_diff_of_permutation_not_empty:
  "diff (simpleEnv permutedHeap) (defaultOptions\<lparr>laxArrayOrdering := True\<rparr>) 4 (VRef 7) (VRef 8)
     = Some (Inr [RemoveFromLhs [\<lparr>typeOf = Ty_array, segment = Some (PIndex 2)\<rparr>],
                  AddToLhs [\<lparr>typeOf = Ty_array, segment = Some (PIndex (- 3))\<rparr>] (VRef 6)])"
  by code_simp

section \<open>Copying a cyclic graph\<close>

text \<open>
  Claim C7 does not hold of the code. For the object \<open>a\<close> with \<open>a.self = a\<close> and
  \<open>guardCircularRefs\<close> enabled, the copy is a new object at address 1 without any
  property: \<open>Visitor.visit\<close> returns at the guard when it meets \<open>a\<close> again, so
  \<open>Copy.visitNode\<close>, which would attach the clone made before, is not reached.
\<close>

theorem copy_of_cycle_omits_edge:
  "copy [OObject [(''self'', VRef 0)]] True (Suc (Suc n)) (VRef 0)
     = Some (Inr (VRef 1, [OObject [(''self'', VRef 0)], OObject []]))"
  by (simp add: copy_def copyVisitStep_def copyVisitNode_def rootNode_def hasReference_def
        indexOfReference_def addReference_def nodeTypeOf_def deref_def isContainer_def objectIs_def
        defaultCreateCopy_def alloc_def setMirror_def setIndex_def copyChildren_def childNodes_def
        objectEntries_def getEntry_def createObjectPropertyNode_def ret_def copyFinally_def Let_def)

section \<open>How the loops and visitors keep a relation on contexts\<close>

lemma keepsI: "(\<And>c v c'. f c = Some (Inr (v, c')) \<Longrightarrow> R c c') \<Longrightarrow> keeps R f"
  by (simp add: keeps_def)

lemma keepsD: "keeps R f \<Longrightarrow> f c = Some (Inr (v, c')) \<Longrightarrow> R c c'"
  by (simp add: keeps_def)

lemma chain_Inr:
  "chain m k = Some (Inr (v, c')) \<Longrightarrow>
     (\<exists>n. m = Some (Inr (RNode n, c')) \<and> v = RNode n) \<or> (\<exists>b c1. m = Some (Inr (RBool b, c1)) \<and> k c1 = Some (Inr (v, c')))"
  apply (cases m)
   apply simp
  subgoal for a
    apply (cases a)
     apply simp
    subgoal for p
      apply (cases p)
      subgoal for r c
        apply (cases r)
         apply auto
        done
      done
    done
  done

lemma keeps_chain:
  assumes "transp R" and "keeps R f" and "\<And>c. keeps R (k c)"
  shows "keeps R (\<lambda>c. chain (f c) (k c))"
proof (rule keepsI)
  fix c v c' assume a: "chain (f c) (k c) = Some (Inr (v, c'))"
  from chain_Inr [OF a] show "R c c'"
  proof (elim disjE exE conjE)
    fix n assume "f c = Some (Inr (RNode n, c'))"
    then show ?thesis by (rule keepsD [OF assms(2)])
  next
    fix b c1 assume 1: "f c = Some (Inr (RBool b, c1))" and 2: "k c c1 = Some (Inr (v, c'))"
    have "R c c1" by (rule keepsD [OF assms(2) 1])
    moreover have "R c1 c'" by (rule keepsD [OF assms(3) 2])
    ultimately show ?thesis using assms(1) by (rule transpD [rotated])
  qed
qed

lemma keeps_ret: "reflp R \<Longrightarrow> keeps R (\<lambda>c. ret (v, c))"
  by (simp add: keeps_def ret_def reflp_def)

lemma keeps_visitEach:
  assumes "reflp R" and "transp R" and "\<And>x. x \<in> set xs \<Longrightarrow> keeps R (step x)"
  shows "keeps R (visitEach step xs)"
  using assms(3)
proof (induction xs)
  case Nil
  show ?case using assms(1) by (simp add: keeps_def ret_def reflp_def)
next
  case (Cons x xs)
  have 1: "keeps R (step x)" using Cons.prems by simp
  have 2: "keeps R (visitEach step xs)" using Cons by simp
  have "keeps R (\<lambda>c. chain (step x c) (visitEach step xs))"
    by (rule keeps_chain [OF assms(2) 1]) (rule 2)
  then show ?case by (simp add: keeps_def)
qed


lemma searchFrame_refl: "reflp searchFrame"
  by (simp add: reflp_def searchFrame_def)

lemma searchFrame_trans: "transp searchFrame"
  by (simp add: transp_def searchFrame_def)

lemma keeps_areEqual: "keeps searchFrame (\<lambda>c. ret (areEqual c x))"
  by (simp add: keeps_def areEqual_def ret_def searchFrame_def)

lemma keeps_notEqual: "keeps searchFrame (\<lambda>c. notEqual env this c l r x)"
  by (cases "algorithm this") (auto simp add: keeps_def notEqual_def ret_def searchFrame_def)

lemma keeps_noLhs: "keeps searchFrame (\<lambda>c. noLhs env this c r)"
  by (cases "algorithm this"; cases "createAdd env this r")
     (auto simp add: keeps_def noLhs_def ret_def throw_def searchFrame_def split: if_splits)

lemma keeps_noRhs: "keeps searchFrame (\<lambda>c. noRhs env this c l)"
  by (cases "algorithm this") (auto simp add: keeps_def noRhs_def ret_def searchFrame_def)

lemma visitOther_returns:
  "visitOther env this l r c = Some (Inr y) \<Longrightarrow>
   (case leafResult env this (nodeTypeOf (heap env) r) (nodeValue l) (nodeValue r) of
      Some x \<Rightarrow> (if IS_EQUAL x then ret (areEqual c x) else notEqual env this c l r x)
    | None \<Rightarrow> ret (RBool False, c)) = Some (Inr y)"
  by (simp add: visitOther_def throw_def split: if_splits)

lemma keeps_visitOther: "keeps searchFrame (visitOther env this l r)"
proof (rule keepsI)
  fix c v c' assume "visitOther env this l r c = Some (Inr (v, c'))"
  then have a: "(case leafResult env this (nodeTypeOf (heap env) r) (nodeValue l) (nodeValue r) of
      Some x \<Rightarrow> (if IS_EQUAL x then ret (areEqual c x) else notEqual env this c l r x)
    | None \<Rightarrow> ret (RBool False, c)) = Some (Inr (v, c'))"
    by (rule visitOther_returns)
  show "searchFrame c c'"
  proof (cases "leafResult env this (nodeTypeOf (heap env) r) (nodeValue l) (nodeValue r)")
    case None
    then show ?thesis using a by (simp add: ret_def searchFrame_def)
  next
    case (Some x)
    show ?thesis
    proof (cases "IS_EQUAL x")
      case True
      then have "ret (areEqual c x) = Some (Inr (v, c'))" using a Some by simp
      then show ?thesis by (rule keepsD [OF keeps_areEqual])
    next
      case False
      then have "notEqual env this c l r x = Some (Inr (v, c'))" using a Some by simp
      then show ?thesis by (rule keepsD [OF keeps_notEqual])
    qed
  qed
qed


lemma rbind_Inr: "rbind m f = Some (Inr y) \<Longrightarrow> \<exists>x. m = Some (Inr x) \<and> f x = Some (Inr y)"
  by (cases "(m, f)" rule: rbind.cases) simp_all

lemma sameOutcome_refl [simp]: "sameOutcome c c"
  by (simp add: sameOutcome_def)

lemma sameOutcome_trans: "sameOutcome a b \<Longrightarrow> sameOutcome b c \<Longrightarrow> sameOutcome a c"
  by (simp add: sameOutcome_def)

lemma sameOutcome_searchFrame: "sameOutcome a b \<Longrightarrow> searchFrame a b"
  by (simp add: sameOutcome_def searchFrame_def)

lemma findFirst_sameOutcome:
  assumes self: "\<And>l r. keeps searchFrame (self l r)"
  shows "findFirst self elem ps c = Some (Inr (found, c')) \<Longrightarrow> sameOutcome c c'"
proof (induction ps arbitrary: c)
  case Nil
  then show ?case by (simp add: ret_def)
next
  case (Cons p ps)
  let ?c0 = "c\<lparr>searchResult := None, searching := True\<rparr>"
  from Cons.prems obtain x where x: "self (Some elem) (Some p) ?c0 = Some (Inr x)"
    and rest: "(case x of (r, c1) \<Rightarrow>
              let hit = (case searchResult c1 of Some s \<Rightarrow> IS_EQUAL s | None \<Rightarrow> False);
                  c2 = c1\<lparr>searchResult := searchResult c, searching := searching c\<rparr>
              in if hit then ret (Some p, c2) else findFirst self elem ps c2) = Some (Inr (found, c'))"
    by (auto simp add: Let_def dest!: rbind_Inr)
  obtain r c1 where xe: "x = (r, c1)" by (cases x)
  have "searchFrame ?c0 c1" using x xe keepsD [OF self] by simp
  then have f: "result c1 = result c" "changes c1 = changes c"
    by (simp_all add: searchFrame_def)
  let ?c2 = "c1\<lparr>searchResult := searchResult c, searching := searching c\<rparr>"
  have s2: "sameOutcome c ?c2" using f by (simp add: sameOutcome_def)
  show ?case
  proof (cases "case searchResult c1 of Some s \<Rightarrow> IS_EQUAL s | None \<Rightarrow> False")
    case True
    then have "c' = ?c2" using rest xe by (simp add: ret_def)
    then show ?thesis using s2 by simp
  next
    case False
    then have "findFirst self elem ps ?c2 = Some (Inr (found, c'))" using rest xe by simp
    then have "sameOutcome ?c2 c'" by (rule Cons.IH)
    then show ?thesis using s2 sameOutcome_trans by blast
  qed
qed

lemma findIndexOf_sameOutcome:
  assumes self: "\<And>l r. keeps searchFrame (self l r)"
  shows "findIndexOf env self elem array matches c = Some (Inr (idx, ms, c')) \<Longrightarrow> sameOutcome c c'"
  unfolding findIndexOf_def Let_def
  by (auto simp add: ret_def split: if_splits option.splits dest!: rbind_Inr
        dest: findFirst_sameOutcome [OF self])

lemma matchElements_sameOutcome:
  assumes self: "\<And>l r. keeps searchFrame (self l r)"
  shows "matchElements env self ls rhsElems sh rm cons c = Some (Inr (sh', rm', cons', c'))
         \<Longrightarrow> sameOutcome c c'"
proof (induction ls arbitrary: sh rm cons c)
  case Nil
  then show ?case by (simp add: ret_def)
next
  case (Cons a ls)
  obtain i l where a: "a = (i, l)" by (cases a)
  from Cons.prems a obtain rhIdx consumed c1 where
    f: "findIndexOf env self l rhsElems cons c = Some (Inr (rhIdx, consumed, c1))"
    and rest: "(if rhIdx < 0
          then matchElements env self ls rhsElems sh (rm @ [\<lparr>lhIdx = int i, rhIdx = -1\<rparr>]) consumed c1
          else matchElements env self ls rhsElems (sh @ [\<lparr>lhIdx = int i, rhIdx = rhIdx\<rparr>]) rm consumed c1)
         = Some (Inr (sh', rm', cons', c'))"
    by (auto dest!: rbind_Inr)
  have 1: "sameOutcome c c1" using f by (rule findIndexOf_sameOutcome [OF self])
  have 2: "sameOutcome c1 c'"
    using rest Cons.IH by (cases "rhIdx < 0") simp_all
  show ?case using 1 2 by (rule sameOutcome_trans)
qed


lemma inv_trans: "invariantFor env this R P \<Longrightarrow> transp R"
  by (simp add: invariantFor_def)

lemma inv_same: "invariantFor env this R P \<Longrightarrow> sameOutcome c c' \<Longrightarrow> R c c'"
  by (simp add: invariantFor_def)

lemma inv_refl: "invariantFor env this R P \<Longrightarrow> reflp R"
  by (simp add: reflp_def inv_same)

lemma inv_child: "invariantFor env this R P \<Longrightarrow> P n \<Longrightarrow> P (Node v p pos (Some n))"
  by (simp add: invariantFor_def)

lemma inv_areEqual: "invariantFor env this R P \<Longrightarrow> keeps R (\<lambda>c. ret (areEqual c x))"
  by (simp add: invariantFor_def)

lemma inv_notEqual: "invariantFor env this R P \<Longrightarrow> P l \<Longrightarrow> P r \<Longrightarrow> keeps R (\<lambda>c. notEqual env this c l r x)"
  by (simp add: invariantFor_def)

lemma inv_noLhs: "invariantFor env this R P \<Longrightarrow> P x \<Longrightarrow> keeps R (\<lambda>c. noLhs env this c x)"
  by (simp add: invariantFor_def)

lemma inv_noRhs: "invariantFor env this R P \<Longrightarrow> P x \<Longrightarrow> keeps R (\<lambda>c. noRhs env this c x)"
  by (simp add: invariantFor_def)

lemma keeps_case_prod: "(\<And>a b. keeps R (f a b)) \<Longrightarrow> keeps R (case_prod f x)"
  by (cases x) simp

lemma keeps_visitOther_inv:
  assumes inv: "invariantFor env this R P" and "P l" and "P r"
  shows "keeps R (visitOther env this l r)"
proof (rule keepsI)
  fix c v c' assume "visitOther env this l r c = Some (Inr (v, c'))"
  then have a: "(case leafResult env this (nodeTypeOf (heap env) r) (nodeValue l) (nodeValue r) of
      Some x \<Rightarrow> (if IS_EQUAL x then ret (areEqual c x) else notEqual env this c l r x)
    | None \<Rightarrow> ret (RBool False, c)) = Some (Inr (v, c'))"
    by (rule visitOther_returns)
  show "R c c'"
  proof (cases "leafResult env this (nodeTypeOf (heap env) r) (nodeValue l) (nodeValue r)")
    case None
    then have "c' = c" using a by (simp add: ret_def)
    then show ?thesis using inv_same [OF inv] by simp
  next
    case (Some x)
    show ?thesis
    proof (cases "IS_EQUAL x")
      case True
      then have "ret (areEqual c x) = Some (Inr (v, c'))" using a Some by simp
      then show ?thesis by (rule keepsD [OF inv_areEqual [OF inv]])
    next
      case False
      then have "notEqual env this c l r x = Some (Inr (v, c'))" using a Some by simp
      then show ?thesis by (rule keepsD [OF inv_notEqual [OF inv assms(2,3)]])
    qed
  qed
qed

lemma keeps_visitObject:
  assumes inv: "invariantFor env this R P"
    and self: "\<And>l r. pred_option P l \<Longrightarrow> pred_option P r \<Longrightarrow> keeps R (self l r)"
    and "P lhs" and "P rhs"
  shows "keeps R (\<lambda>c. visitObject env this self lhs rhs c)"
  unfolding visitObject_def Let_def createObjectPropertyNode_def
  by (intro keeps_chain keeps_visitEach keeps_ret inv_trans [OF inv] inv_refl [OF inv]
        inv_noLhs [OF inv] inv_noRhs [OF inv] inv_child [OF inv] self assms(3,4))
     (simp_all add: inv_child [OF inv] assms(3,4))


lemma keeps_visitMap:
  assumes inv: "invariantFor env this R P"
    and self: "\<And>l r. pred_option P l \<Longrightarrow> pred_option P r \<Longrightarrow> keeps R (self l r)"
    and "P lhs" and "P rhs"
  shows "keeps R (\<lambda>c. visitMap env this self lhs rhs c)"
  unfolding visitMap_def Let_def createMapElementNode_def
  by (intro keeps_chain keeps_visitEach keeps_ret keeps_case_prod inv_trans [OF inv] inv_refl [OF inv]
        inv_noLhs [OF inv] inv_noRhs [OF inv] inv_child [OF inv] self assms(3,4))
     (simp_all add: inv_child [OF inv] assms(3,4))

lemma keeps_visitSet:
  assumes inv: "invariantFor env this R P"
    and self: "\<And>l r. pred_option P l \<Longrightarrow> pred_option P r \<Longrightarrow> keeps R (self l r)"
    and "P lhs" and "P rhs"
  shows "keeps R (\<lambda>c. visitSet env this self lhs rhs c)"
  unfolding visitSet_def Let_def createSetElementNode_def
  by (intro keeps_chain keeps_visitEach keeps_ret keeps_case_prod inv_trans [OF inv] inv_refl [OF inv]
        inv_noLhs [OF inv] inv_noRhs [OF inv] inv_child [OF inv] self assms(3,4))
     (simp_all add: inv_child [OF inv] assms(3,4))

lemma nthOpt_Some: "nthOpt xs i = Some x \<Longrightarrow> x \<in> set xs"
  by (auto simp add: nthOpt_def split: if_splits)

lemma pred_option_nthOpt: "(\<And>x. x \<in> set xs \<Longrightarrow> P x) \<Longrightarrow> pred_option P (nthOpt xs i)"
  by (cases "nthOpt xs i") (auto dest: nthOpt_Some)

lemma keeps_withNode:
  "(\<And>x. n = Some x \<Longrightarrow> keeps R (\<lambda>c. f c x)) \<Longrightarrow> keeps R (withNode f n)"
  by (cases n) (simp_all add: keeps_def withNode_def throw_def)

lemma arrayElementNodes_P:
  assumes "invariantFor env this R P" and "P n"
  shows "x \<in> set (arrayElementNodes env this n) \<Longrightarrow> P x"
  using assms by (auto simp add: arrayElementNodes_def createArrayElementNode_def inv_child)

lemma keeps_emitLax:
  assumes inv: "invariantFor env this R P"
    and self: "\<And>l r. pred_option P l \<Longrightarrow> pred_option P r \<Longrightarrow> keeps R (self l r)"
    and pl: "\<And>x. x \<in> set lhsElems \<Longrightarrow> P x" and pr: "\<And>x. x \<in> set rhsElems \<Longrightarrow> P x"
  shows "keeps R (\<lambda>c. emitLax env this self lhsElems rhsElems sh rm cons c)"
  unfolding emitLax_def Let_def
  by (intro keeps_chain keeps_visitEach keeps_ret keeps_withNode inv_trans [OF inv] inv_refl [OF inv]
        self pred_option_nthOpt inv_noLhs [OF inv] inv_noRhs [OF inv])
     (auto dest!: nthOpt_Some pl pr)

lemma keeps_visitArray:
  assumes inv: "invariantFor env this R P"
    and self: "\<And>l r. pred_option P l \<Longrightarrow> pred_option P r \<Longrightarrow> keeps R (self l r)"
    and selfS: "\<And>l r. keeps searchFrame (self l r)"
    and "P lhs" and "P rhs"
  shows "keeps R (\<lambda>c. visitArray env this self lhs rhs c)"
proof (rule keepsI)
  fix c v c'
  assume a: "visitArray env this self lhs rhs c = Some (Inr (v, c'))"
  define rhsElems where "rhsElems = arrayElementNodes env this rhs"
  define lhsElems where "lhsElems = arrayElementNodes env this lhs"
  have pl: "\<And>x. x \<in> set lhsElems \<Longrightarrow> P x"
    unfolding lhsElems_def by (rule arrayElementNodes_P [OF inv assms(4)])
  have pr: "\<And>x. x \<in> set rhsElems \<Longrightarrow> P x"
    unfolding rhsElems_def by (rule arrayElementNodes_P [OF inv assms(5)])
  show "R c c'"
  proof (cases "laxArrayOrdering this")
    case False
    have k: "keeps R (\<lambda>c. chain (visitEach (\<lambda>i c. self (nthOpt lhsElems (int i)) (nthOpt rhsElems (int i)) c)
                  (rev [0..<max (length lhsElems) (length rhsElems)]) c) (\<lambda>ctx. ret (RBool False, ctx)))"
      by (intro keeps_chain keeps_visitEach keeps_ret inv_trans [OF inv] inv_refl [OF inv] self
            pred_option_nthOpt pl pr)
    have "chain (visitEach (\<lambda>i c. self (nthOpt lhsElems (int i)) (nthOpt rhsElems (int i)) c)
                  (rev [0..<max (length lhsElems) (length rhsElems)]) c) (\<lambda>ctx. ret (RBool False, ctx))
          = Some (Inr (v, c'))"
      using a False unfolding visitArray_def lhsElems_def rhsElems_def Let_def by simp
    then show ?thesis by (rule keepsD [OF k])
  next
    case True
    have "rbind (matchElements env self (enumerate 0 lhsElems) rhsElems [] [] [] c)
            (\<lambda>(sharedIdx, removedIdx, consumedRhsIdx, ctx).
               emitLax env this self lhsElems rhsElems sharedIdx removedIdx consumedRhsIdx ctx)
          = Some (Inr (v, c'))"
      using a True unfolding visitArray_def lhsElems_def rhsElems_def Let_def by simp
    then obtain sh rm cons c1 where
      m: "matchElements env self (enumerate 0 lhsElems) rhsElems [] [] [] c = Some (Inr (sh, rm, cons, c1))"
      and r: "emitLax env this self lhsElems rhsElems sh rm cons c1 = Some (Inr (v, c'))"
      by (auto dest!: rbind_Inr)
    have "sameOutcome c c1" using m by (rule matchElements_sameOutcome [OF selfS])
    then have 1: "R c c1" by (rule inv_same [OF inv])
    have k: "keeps R (\<lambda>c. emitLax env this self lhsElems rhsElems sh rm cons c)"
      using inv self pl pr by (rule keeps_emitLax)
    have 2: "R c1 c'" using r by (rule keepsD [OF k])
    show ?thesis using 1 2 inv_trans [OF inv] by (rule transpD [rotated])
  qed
qed


lemma sameOutcome_refs [simp]: "sameOutcome c (c\<lparr>refs := rs\<rparr>)"
  by (simp add: sameOutcome_def)

lemma keeps_from:
  assumes "transp R" and "R c c0" and "keeps R f" and "f c0 = Some (Inr (v, c'))"
  shows "R c c'"
proof -
  have "R c0 c'" using assms(4) by (rule keepsD [OF assms(3)])
  with assms(2) show ?thesis using assms(1) by (rule transpD [rotated])
qed

lemma keeps_superVisit:
  assumes inv: "invariantFor env this R P"
    and self: "\<And>l r. pred_option P l \<Longrightarrow> pred_option P r \<Longrightarrow> keeps R (self l r)"
    and selfS: "\<And>l r. keeps searchFrame (self l r)"
    and pl: "P lhs" and pr: "P rhs"
  shows "keeps R (superVisit env this self lhs rhs)"
proof (rule keepsI)
  fix c v c'
  assume a: "superVisit env this self lhs rhs c = Some (Inr (v, c'))"
  define reg where "reg = (if guardCircularRefs this then c\<lparr>refs := addReference (refs c) rhs\<rparr> else c)"
  have rr: "R c reg" unfolding reg_def by (simp add: inv_same [OF inv])
  note tr = inv_trans [OF inv]
  have kA: "keeps R (\<lambda>c. visitArray env this self lhs rhs c)"
    using inv self selfS pl pr by (rule keeps_visitArray)
  have kS: "keeps R (\<lambda>c. visitSet env this self lhs rhs c)"
    using inv self pl pr by (rule keeps_visitSet)
  have kM: "keeps R (\<lambda>c. visitMap env this self lhs rhs c)"
    using inv self pl pr by (rule keeps_visitMap)
  have kO: "keeps R (\<lambda>c. visitObject env this self lhs rhs c)"
    using inv self pl pr by (rule keeps_visitObject)
  show "R c c'"
  proof (cases "hasReference (refs c) rhs")
    case True
    then have "c' = c" using a by (simp add: superVisit_def ret_def)
    then show ?thesis by (simp add: inv_same [OF inv])
  next
    case False
    consider (arr) "nodeTypeOf (heap env) rhs = Ty_array" | (set) "nodeTypeOf (heap env) rhs = Ty_set"
      | (map) "nodeTypeOf (heap env) rhs = Ty_map" | (obj) "nodeTypeOf (heap env) rhs = Ty_object"
      | (other) "\<not> isContainer (nodeTypeOf (heap env) rhs)"
      by (auto simp add: isContainer_def)
    then show ?thesis
    proof cases
      case arr
      then have "visitArray env this self lhs rhs reg = Some (Inr (v, c'))"
        using a False by (simp add: superVisit_def reg_def Let_def)
      then show ?thesis
        by (rule keeps_from [OF tr rr kA])
    next
      case set
      then have "visitSet env this self lhs rhs reg = Some (Inr (v, c'))"
        using a False by (simp add: superVisit_def reg_def Let_def)
      then show ?thesis
        by (rule keeps_from [OF tr rr kS])
    next
      case map
      then have "visitMap env this self lhs rhs reg = Some (Inr (v, c'))"
        using a False by (simp add: superVisit_def reg_def Let_def)
      then show ?thesis
        by (rule keeps_from [OF tr rr kM])
    next
      case obj
      then have "visitObject env this self lhs rhs reg = Some (Inr (v, c'))"
        using a False by (simp add: superVisit_def reg_def Let_def)
      then show ?thesis
        by (rule keeps_from [OF tr rr kO])
    next
      case other
      then have "visitOther env this lhs rhs c = Some (Inr (v, c'))"
        using a False by (cases "nodeTypeOf (heap env) rhs") (simp_all add: superVisit_def Let_def isContainer_def)
      then show ?thesis
        by (rule keepsD [OF keeps_visitOther_inv [OF inv pl pr]])
    qed
  qed
qed

lemma keeps_compareStep:
  assumes inv: "invariantFor env this R P"
    and self: "\<And>l r. pred_option P l \<Longrightarrow> pred_option P r \<Longrightarrow> keeps R (self l r)"
    and selfS: "\<And>l r. keeps searchFrame (self l r)"
    and pl: "pred_option P lhs" and pr: "pred_option P rhs"
  shows "keeps R (compareStep env this self lhs rhs)"
proof (rule keepsI)
  fix c v c'
  assume a: "compareStep env this self lhs rhs c = Some (Inr (v, c'))"
  note ae = keepsD [OF inv_areEqual [OF inv]]
  show "R c c'"
  proof (cases lhs)
    case None
    show ?thesis
    proof (cases rhs)
      case None
      with \<open>lhs = None\<close> a show ?thesis by (auto simp add: compareStep_def intro: ae)
    next
      case (Some r)
      then have "P r" using pr by simp
      with Some \<open>lhs = None\<close> a show ?thesis
        by (auto simp add: compareStep_def intro: keepsD [OF inv_noLhs [OF inv]])
    qed
  next
    case (Some l)
    then have Pl: "P l" using pl by simp
    show ?thesis
    proof (cases rhs)
      case None
      with Some a Pl show ?thesis
        by (auto simp add: compareStep_def intro: keepsD [OF inv_noRhs [OF inv]])
    next
      case (Some r)
      then have Pr: "P r" using pr by simp
      note ne = keepsD [OF inv_notEqual [OF inv Pl Pr]]
      note nl = keepsD [OF inv_noLhs [OF inv Pr]]
      note nr = keepsD [OF inv_noRhs [OF inv Pl]]
      have ksv: "keeps R (superVisit env this self l r)"
        using inv self selfS Pl Pr by (rule keeps_superVisit)
      note sv = keepsD [OF ksv]
      from a Some \<open>lhs = Some l\<close> show ?thesis
        by (auto simp add: compareStep_def split: if_splits intro: ae ne nl nr sv)
    qed
  qed
qed


lemma invariantFor_searchFrame: "invariantFor env this searchFrame (\<lambda>n. True)"
  unfolding invariantFor_def
  by (intro conjI allI impI searchFrame_trans sameOutcome_searchFrame keeps_areEqual keeps_notEqual
        keeps_noLhs keeps_noRhs TrueI)

lemma pred_option_True [simp]: "pred_option (\<lambda>n. True) x"
  by (cases x) simp_all

lemma compare_keeps_searchFrame: "keeps searchFrame (compare env this n l r)"
proof (induction n arbitrary: l r)
  case 0
  show ?case by (simp add: keeps_def)
next
  case (Suc n)
  have "keeps searchFrame (compareStep env this (compare env this n) l r)"
    by (rule keeps_compareStep [OF invariantFor_searchFrame]) (simp_all add: Suc)
  then show ?case by simp
qed

lemma compare_keeps:
  assumes inv: "invariantFor env this R P"
  shows "pred_option P l \<Longrightarrow> pred_option P r \<Longrightarrow> keeps R (compare env this n l r)"
proof (induction n arbitrary: l r)
  case 0
  show ?case by (simp add: keeps_def)
next
  case (Suc n)
  have "keeps R (compareStep env this (compare env this n) l r)"
    using inv Suc.IH compare_keeps_searchFrame Suc.prems by (rule keeps_compareStep)
  then show ?case by simp
qed

section \<open>Search comparisons\<close>

text \<open>
  Claim C9. A comparison that runs in search mode records its outcome in \<open>searchResult\<close>
  only: it stays in search mode and leaves \<open>result\<close> and \<open>changes\<close> as they were. When
  \<open>findIndexOf\<close> returns, \<open>result\<close>, \<open>changes\<close>, \<open>searching\<close> and \<open>searchResult\<close> of the
  enclosing comparison are what they were before the search. This holds for \<open>Equal\<close> and
  for \<open>Diff\<close>.
\<close>

theorem search_leaves_enclosing_outcome:
  "(searching c \<and> compare env this n l r c = Some (Inr (v, c1))
      \<longrightarrow> searching c1 \<and> result c1 = result c \<and> changes c1 = changes c)
   \<and> (findIndexOf env (compare env this n) elem array matches ctx = Some (Inr (idx, ms, ctx'))
      \<longrightarrow> result ctx' = result ctx \<and> changes ctx' = changes ctx
          \<and> searching ctx' = searching ctx \<and> searchResult ctx' = searchResult ctx)"
proof (rule conjI; rule impI)
  assume a: "searching c \<and> compare env this n l r c = Some (Inr (v, c1))"
  then have "searchFrame c c1" using keepsD [OF compare_keeps_searchFrame] by blast
  with a show "searching c1 \<and> result c1 = result c \<and> changes c1 = changes c"
    by (simp add: searchFrame_def)
next
  assume "findIndexOf env (compare env this n) elem array matches ctx = Some (Inr (idx, ms, ctx'))"
  then have "sameOutcome ctx ctx'"
    by (rule findIndexOf_sameOutcome [OF compare_keeps_searchFrame])
  then show "result ctx' = result ctx \<and> changes ctx' = changes ctx
          \<and> searching ctx' = searching ctx \<and> searchResult ctx' = searchResult ctx"
    by (simp add: sameOutcome_def)
qed


theorem search_leaves_enclosing_outcome_witness:
  "searching ((createContext defaultOptions)\<lparr>searching := True, result := Some NOT_EQUAL,
                 changes := [RemoveFromLhs []]\<rparr>)
   \<and> compare (simpleEnv []) defaultOptions 1 (Some (rootNode (VNumber (Num 1))))
         (Some (rootNode (VNumber (Num 2))))
         ((createContext defaultOptions)\<lparr>searching := True, result := Some NOT_EQUAL,
              changes := [RemoveFromLhs []]\<rparr>)
       = Some (Inr (RBool True,
           (createContext defaultOptions)\<lparr>searching := True, result := Some NOT_EQUAL,
              changes := [RemoveFromLhs []], searchResult := Some IS_LT\<rparr>))
   \<and> findIndexOf (simpleEnv [OArray [VNumber (Num 1), VNumber (Num 2)]])
         (compare (simpleEnv [OArray [VNumber (Num 1), VNumber (Num 2)]]) defaultOptions 1)
         (Node (VNumber (Num 2)) (Some (PIndex 0)) None None)
         (arrayElementNodes (simpleEnv [OArray [VNumber (Num 1), VNumber (Num 2)]])
            (defaultOptions\<lparr>laxArrayOrdering := True\<rparr>) (rootNode (VRef 0)))
         [] ((createContext defaultOptions)\<lparr>result := Some NOT_EQUAL, changes := [RemoveFromLhs []]\<rparr>)
       = Some (Inr (1, [1],
           (createContext defaultOptions)\<lparr>result := Some NOT_EQUAL, changes := [RemoveFromLhs []]\<rparr>))"
proof -
  let ?c = "(createContext defaultOptions)\<lparr>searching := True, result := Some NOT_EQUAL,
                 changes := [RemoveFromLhs []]\<rparr>"
  let ?c1 = "(createContext defaultOptions)\<lparr>searching := True, result := Some NOT_EQUAL,
              changes := [RemoveFromLhs []], searchResult := Some IS_LT\<rparr>"
  let ?env = "simpleEnv [OArray [VNumber (Num 1), VNumber (Num 2)]]"
  let ?ctx = "(createContext defaultOptions)\<lparr>result := Some NOT_EQUAL, changes := [RemoveFromLhs []]\<rparr>"
  let ?elems = "arrayElementNodes ?env (defaultOptions\<lparr>laxArrayOrdering := True\<rparr>) (rootNode (VRef 0))"
  let ?elem = "Node (VNumber (Num 2)) (Some (PIndex 0)) None None"
  have s: "searching ?c" by (simp add: createContext_def)
  have h1: "compare (simpleEnv []) defaultOptions 1 (Some (rootNode (VNumber (Num 1))))
         (Some (rootNode (VNumber (Num 2)))) ?c = Some (Inr (RBool True, ?c1))"
    by code_simp
  have h2: "findIndexOf ?env (compare ?env defaultOptions 1) ?elem ?elems [] ?ctx = Some (Inr (1, [1], ?ctx))"
    by code_simp
  show ?thesis
    using s h1 h2
      search_leaves_enclosing_outcome [of ?c "simpleEnv []" defaultOptions 1
        "Some (rootNode (VNumber (Num 1)))" "Some (rootNode (VNumber (Num 2)))" "RBool True" ?c1
        ?elem ?elems "[]" ?ctx 1 "[1]" ?ctx]
    by simp
qed

section \<open>Termination under the circular-reference guard\<close>

lemma refsGrow_trans: "refsGrow a b \<Longrightarrow> refsGrow b c \<Longrightarrow> refsGrow a c"
  by (auto simp add: refsGrow_def)

lemma refsGrow_refl: "refsGrow a b \<Longrightarrow> refsGrow b b"
  by (auto simp add: refsGrow_def)

lemma refsGrow_refl_left: "refsGrow a b \<Longrightarrow> refsGrow a a"
  by (auto simp add: refsGrow_def)

lemma finishesI:
  "(\<And>c. refsGrow (g c0) (g c) \<Longrightarrow> \<exists>y. f c = Some y \<and> (\<forall>r. y = Inr r \<longrightarrow> refsGrow (g c) (g (st r))))
   \<Longrightarrow> finishes g st c0 f"
  by (simp add: finishes_def)

lemma finishesD:
  "finishes g st c0 f \<Longrightarrow> refsGrow (g c0) (g c) \<Longrightarrow>
     \<exists>y. f c = Some y \<and> (\<forall>r. y = Inr r \<longrightarrow> refsGrow (g c) (g (st r)))"
  by (simp add: finishes_def)

lemma finishes_from: "finishes g st c0 f \<Longrightarrow> refsGrow (g c0) (g c1) \<Longrightarrow> finishes g st c1 f"
  unfolding finishes_def using refsGrow_trans by blast

lemma finishes_ret: "finishes g snd c0 (\<lambda>c. ret (v, c))"
  by (auto simp add: finishes_def ret_def intro: refsGrow_refl)

lemma finishes_chain:
  assumes f: "finishes g snd c0 f" and k: "finishes g snd c0 k"
  shows "finishes g snd c0 (\<lambda>c. chain (f c) k)"
proof (rule finishesI)
  fix c assume gr: "refsGrow (g c0) (g c)"
  from finishesD [OF f gr] obtain y where y: "f c = Some y" "\<forall>r. y = Inr r \<longrightarrow> refsGrow (g c) (g (snd r))"
    by blast
  show "\<exists>y. chain (f c) k = Some y \<and> (\<forall>r. y = Inr r \<longrightarrow> refsGrow (g c) (g (snd r)))"
  proof (cases y)
    case (Inl e)
    then show ?thesis using y by simp
  next
    case (Inr p)
    obtain v c1 where p: "p = (v, c1)" by (cases p)
    have g1: "refsGrow (g c) (g c1)" using y Inr p by simp
    show ?thesis
    proof (cases v)
      case (RNode n)
      then show ?thesis using y Inr p g1 by simp
    next
      case (RBool b)
      have "refsGrow (g c0) (g c1)" using gr g1 by (rule refsGrow_trans)
      from finishesD [OF k this] obtain z where z: "k c1 = Some z" "\<forall>r. z = Inr r \<longrightarrow> refsGrow (g c1) (g (snd r))"
        by blast
      have "chain (f c) k = Some z" using y Inr p RBool z by simp
      moreover have "\<forall>r. z = Inr r \<longrightarrow> refsGrow (g c) (g (snd r))"
        using z(2) g1 refsGrow_trans by blast
      ultimately show ?thesis by blast
    qed
  qed
qed

lemma finishes_visitEach:
  assumes "\<And>x. x \<in> set xs \<Longrightarrow> finishes g snd c0 (step x)"
  shows "finishes g snd c0 (visitEach step xs)"
  using assms
proof (induction xs)
  case Nil
  have "finishes g snd c0 (\<lambda>c. ret (RBool False, c))" by (rule finishes_ret)
  then show ?case by (simp add: finishes_def)
next
  case (Cons x xs)
  have 1: "finishes g snd c0 (step x)" using Cons.prems by simp
  have 2: "finishes g snd c0 (visitEach step xs)" using Cons by simp
  have "finishes g snd c0 (\<lambda>c. chain (step x c) (visitEach step xs))"
    using 1 2 by (rule finishes_chain)
  then show ?case by (simp add: finishes_def)
qed


lemma finishes_case_prod: "(\<And>a b. finishes g st c0 (f a b)) \<Longrightarrow> finishes g st c0 (case_prod f x)"
  by (cases x) simp

lemma refsGrow_same: "refsGrow a b \<Longrightarrow> b' = b \<Longrightarrow> refsGrow b b'"
  by (auto simp add: refsGrow_def)

lemma finishes_keeping_refs:
  assumes "\<And>c. \<exists>y. f c = Some y \<and> (\<forall>r. y = Inr r \<longrightarrow> g (st r) = g c)"
  shows "finishes g st c0 f"
proof (rule finishesI)
  fix c assume gr: "refsGrow (g c0) (g c)"
  from assms [of c] obtain y where y: "f c = Some y" "\<forall>r. y = Inr r \<longrightarrow> g (st r) = g c" by blast
  have "\<forall>r. y = Inr r \<longrightarrow> refsGrow (g c) (g (st r))"
    using y(2) refsGrow_refl [OF gr] by simp
  with y(1) show "\<exists>y. f c = Some y \<and> (\<forall>r. y = Inr r \<longrightarrow> refsGrow (g c) (g (st r)))" by blast
qed

lemma finishes_areEqual: "finishes refs snd c0 (\<lambda>c. ret (areEqual c x))"
  by (rule finishes_keeping_refs) (simp add: areEqual_def ret_def)

lemma finishes_notEqual: "finishes refs snd c0 (\<lambda>c. notEqual env this c l r x)"
  by (rule finishes_keeping_refs) (cases "algorithm this"; simp add: notEqual_def ret_def)

lemma finishes_noRhs: "finishes refs snd c0 (\<lambda>c. noRhs env this c l)"
  by (rule finishes_keeping_refs) (cases "algorithm this"; simp add: noRhs_def ret_def)

lemma finishes_noLhs: "finishes refs snd c0 (\<lambda>c. noLhs env this c r)"
  by (rule finishes_keeping_refs)
     (cases "algorithm this"; cases "createAdd env this r"; simp add: noLhs_def ret_def throw_def)

lemma finishes_visitOther: "finishes refs snd c0 (visitOther env this l r)"
proof (rule finishes_keeping_refs)
  fix c
  show "\<exists>y. visitOther env this l r c = Some y \<and> (\<forall>r. y = Inr r \<longrightarrow> refs (snd r) = refs c)"
    by (cases "leafResult env this (nodeTypeOf (heap env) r) (nodeValue l) (nodeValue r)";
        cases "algorithm this")
       (simp_all add: visitOther_def ret_def throw_def areEqual_def notEqual_def)
qed

lemma finishes_withNode:
  "(\<And>x. n = Some x \<Longrightarrow> finishes g snd c0 (\<lambda>c. f c x)) \<Longrightarrow> finishes g snd c0 (withNode f n)"
  by (cases n) (simp_all add: finishes_def withNode_def throw_def)

lemma finishes_findFirst:
  assumes self: "\<And>l r. finishes refs snd c0 (self l r)"
  shows "finishes refs snd c0 (findFirst self elem ps)"
proof (induction ps)
  case Nil
  show ?case by (rule finishes_keeping_refs) (simp add: ret_def)
next
  case (Cons p ps)
  show ?case
  proof (rule finishesI)
    fix c :: compareContext assume gr: "refsGrow (refs c0) (refs c)"
    let ?cs = "c\<lparr>searchResult := None, searching := True\<rparr>"
    have "refsGrow (refs c0) (refs ?cs)" using gr by simp
    from finishesD [OF self this] obtain y where
      y: "self (Some elem) (Some p) ?cs = Some y" "\<forall>r. y = Inr r \<longrightarrow> refsGrow (refs ?cs) (refs (snd r))"
      by blast
    show "\<exists>y. findFirst self elem (p # ps) c = Some y \<and> (\<forall>r. y = Inr r \<longrightarrow> refsGrow (refs c) (refs (snd r)))"
    proof (cases y)
      case (Inl e)
      then show ?thesis using y by simp
    next
      case (Inr q)
      obtain r c1 where q: "q = (r, c1)" by (cases q)
      have g1: "refsGrow (refs c) (refs c1)" using y Inr q by simp
      let ?c2 = "c1\<lparr>searchResult := searchResult c, searching := searching c\<rparr>"
      have g2: "refsGrow (refs c) (refs ?c2)" using g1 by simp
      show ?thesis
      proof (cases "case searchResult c1 of Some s \<Rightarrow> IS_EQUAL s | None \<Rightarrow> False")
        case True
        then have "findFirst self elem (p # ps) c = ret (Some p, ?c2)"
          using y Inr q by (simp add: Let_def)
        then show ?thesis using g2 by (simp add: ret_def)
      next
        case False
        then have e: "findFirst self elem (p # ps) c = findFirst self elem ps ?c2"
          using y Inr q by (simp add: Let_def)
        have "refsGrow (refs c0) (refs ?c2)" using gr g2 by (rule refsGrow_trans)
        from finishesD [OF Cons.IH this] obtain z where
          z: "findFirst self elem ps ?c2 = Some z" "\<forall>r. z = Inr r \<longrightarrow> refsGrow (refs ?c2) (refs (snd r))"
          by blast
        have "\<forall>r. z = Inr r \<longrightarrow> refsGrow (refs c) (refs (snd r))"
          using z(2) g2 refsGrow_trans by blast
        then show ?thesis using e z(1) by simp
      qed
    qed
  qed
qed

lemma finishes_findIndexOf:
  assumes self: "\<And>l r. finishes refs snd c0 (self l r)"
  shows "finishes refs (\<lambda>r. snd (snd r)) c0 (findIndexOf env self elem array matches)"
proof (rule finishesI)
  fix c :: compareContext assume gr: "refsGrow (refs c0) (refs c)"
  let ?same = "filter (\<lambda>x. nodeTypeOf (heap env) x = nodeTypeOf (heap env) elem
                                  \<and> propertyIndex x \<notin> set matches) array"
  have ff: "finishes refs snd c0 (findFirst self elem ?same)"
    using self by (rule finishes_findFirst)
  from finishesD [OF ff gr]
  obtain y where y: "findFirst self elem ?same c = Some y"
    "\<forall>r. y = Inr r \<longrightarrow> refsGrow (refs c) (refs (snd r))" by blast
  show "\<exists>y. findIndexOf env self elem array matches c = Some y
          \<and> (\<forall>r. y = Inr r \<longrightarrow> refsGrow (refs c) (refs (snd (snd r))))"
  proof (cases "?same = []")
    case True
    then show ?thesis using refsGrow_refl [OF gr] by (simp add: findIndexOf_def ret_def)
  next
    case False
    show ?thesis
    proof (cases y)
      case (Inl e)
      then show ?thesis using y False by (simp add: findIndexOf_def)
    next
      case (Inr q)
      obtain found c1 where q: "q = (found, c1)" by (cases q)
      then show ?thesis using y False Inr
        by (cases found) (simp_all add: findIndexOf_def ret_def)
    qed
  qed
qed


lemma finishes_matchElements:
  assumes self: "\<And>l r. finishes refs snd c0 (self l r)"
  shows "finishes refs (\<lambda>r. snd (snd (snd r))) c0 (matchElements env self ls rhsElems sh rm cons)"
proof (induction ls arbitrary: sh rm cons)
  case Nil
  show ?case by (rule finishes_keeping_refs) (simp add: ret_def)
next
  case (Cons a ls)
  obtain i l where a: "a = (i, l)" by (cases a)
  have fi: "finishes refs (\<lambda>r. snd (snd r)) c0 (findIndexOf env self l rhsElems cons)"
    using self by (rule finishes_findIndexOf)
  show ?case
  proof (rule finishesI)
    fix c :: compareContext assume gr: "refsGrow (refs c0) (refs c)"
    from finishesD [OF fi gr] obtain y where
      y: "findIndexOf env self l rhsElems cons c = Some y"
         "\<forall>r. y = Inr r \<longrightarrow> refsGrow (refs c) (refs (snd (snd r)))" by blast
    show "\<exists>y. matchElements env self (a # ls) rhsElems sh rm cons c = Some y
            \<and> (\<forall>r. y = Inr r \<longrightarrow> refsGrow (refs c) (refs (snd (snd (snd r)))))"
    proof (cases y)
      case (Inl e)
      then show ?thesis using y a by simp
    next
      case (Inr q)
      obtain rhIdx consumed c1 where q: "q = (rhIdx, consumed, c1)" by (cases q) auto
      have g1: "refsGrow (refs c) (refs c1)" using y Inr q by simp
      have g01: "refsGrow (refs c0) (refs c1)" using gr g1 by (rule refsGrow_trans)
      define sh' where "sh' = (if rhIdx < 0 then sh else sh @ [\<lparr>lhIdx = int i, rhIdx = rhIdx\<rparr>])"
      define rm' where "rm' = (if rhIdx < 0 then rm @ [\<lparr>lhIdx = int i, rhIdx = -1\<rparr>] else rm)"
      have e: "matchElements env self (a # ls) rhsElems sh rm cons c
                 = matchElements env self ls rhsElems sh' rm' consumed c1"
        using y Inr q a by (simp add: sh'_def rm'_def)
      from finishesD [OF Cons.IH g01] obtain z where
        z: "matchElements env self ls rhsElems sh' rm' consumed c1 = Some z"
           "\<forall>r. z = Inr r \<longrightarrow> refsGrow (refs c1) (refs (snd (snd (snd r))))" by blast
      have "\<forall>r. z = Inr r \<longrightarrow> refsGrow (refs c) (refs (snd (snd (snd r))))"
        using z(2) g1 refsGrow_trans by blast
      then show ?thesis using e z(1) by simp
    qed
  qed
qed

lemma finishes_emitLax:
  assumes self: "\<And>l r. finishes refs snd c0 (self l r)"
  shows "finishes refs snd c0 (\<lambda>c. emitLax env this self lhsElems rhsElems sh rm cons c)"
  unfolding emitLax_def Let_def
  by (intro finishes_chain finishes_visitEach finishes_ret finishes_withNode self
        finishes_noLhs finishes_noRhs)

lemma finishes_visitObject:
  assumes self: "\<And>l r. finishes refs snd c0 (self l r)"
  shows "finishes refs snd c0 (\<lambda>c. visitObject env this self lhs rhs c)"
  unfolding visitObject_def Let_def
  by (intro finishes_chain finishes_visitEach finishes_ret self finishes_noLhs finishes_noRhs)

lemma finishes_visitMap:
  assumes self: "\<And>l r. finishes refs snd c0 (self l r)"
  shows "finishes refs snd c0 (\<lambda>c. visitMap env this self lhs rhs c)"
  unfolding visitMap_def Let_def
  by (intro finishes_chain finishes_visitEach finishes_ret finishes_case_prod self
        finishes_noLhs finishes_noRhs)

lemma finishes_visitSet:
  assumes self: "\<And>l r. finishes refs snd c0 (self l r)"
  shows "finishes refs snd c0 (\<lambda>c. visitSet env this self lhs rhs c)"
  unfolding visitSet_def Let_def
  by (intro finishes_chain finishes_visitEach finishes_ret finishes_case_prod self
        finishes_noLhs finishes_noRhs)

lemma finishes_visitArray:
  assumes self: "\<And>l r. finishes refs snd c0 (self l r)"
  shows "finishes refs snd c0 (\<lambda>c. visitArray env this self lhs rhs c)"
proof (cases "laxArrayOrdering this")
  case False
  then show ?thesis
    unfolding visitArray_def Let_def
    by (simp only: if_False) (intro finishes_chain finishes_visitEach finishes_ret self)
next
  case True
  let ?l = "arrayElementNodes env this lhs" and ?r = "arrayElementNodes env this rhs"
  have fm: "finishes refs (\<lambda>r. snd (snd (snd r))) c0 (matchElements env self (enumerate 0 ?l) ?r [] [] [])"
    using self by (rule finishes_matchElements)
  show ?thesis
  proof (rule finishesI)
    fix c :: compareContext assume gr: "refsGrow (refs c0) (refs c)"
    from finishesD [OF fm gr] obtain y where
      y: "matchElements env self (enumerate 0 ?l) ?r [] [] [] c = Some y"
         "\<forall>r. y = Inr r \<longrightarrow> refsGrow (refs c) (refs (snd (snd (snd r))))" by blast
    show "\<exists>y. visitArray env this self lhs rhs c = Some y \<and> (\<forall>r. y = Inr r \<longrightarrow> refsGrow (refs c) (refs (snd r)))"
    proof (cases y)
      case (Inl e)
      then show ?thesis using y True by (simp add: visitArray_def Let_def)
    next
      case (Inr q)
      obtain sh rm cons c1 where q: "q = (sh, rm, cons, c1)" by (cases q) auto
      have g1: "refsGrow (refs c) (refs c1)" using y Inr q by simp
      have g01: "refsGrow (refs c0) (refs c1)" using gr g1 by (rule refsGrow_trans)
      have e: "visitArray env this self lhs rhs c = emitLax env this self ?l ?r sh rm cons c1"
        using y Inr q True by (simp add: visitArray_def Let_def)
      have fe: "finishes refs snd c0 (\<lambda>c. emitLax env this self ?l ?r sh rm cons c)"
        using self by (rule finishes_emitLax)
      from finishesD [OF fe g01] obtain z where
        z: "emitLax env this self ?l ?r sh rm cons c1 = Some z"
           "\<forall>r. z = Inr r \<longrightarrow> refsGrow (refs c1) (refs (snd r))" by blast
      have "\<forall>r. z = Inr r \<longrightarrow> refsGrow (refs c) (refs (snd r))"
        using z(2) g1 refsGrow_trans by blast
      then show ?thesis using e z(1) by simp
    qed
  qed
qed


lemma findIndex_nonneg: "(0 \<le> findIndex P xs) = (\<exists>x \<in> set xs. P x)"
  by (induction xs) (auto simp add: Let_def)

lemma hasReference_Some: "hasReference (Some xs) n = (truthy (nodeValue n) \<and> nodeValue n \<in> set xs)"
  by (auto simp add: hasReference_def indexOfReference_def findIndex_nonneg objectIs_def)

lemma hasReference_None [simp]: "\<not> hasReference None n"
  by (simp add: hasReference_def indexOfReference_def)

lemma container_is_ref:
  assumes "isContainer (nodeTypeOf h n)"
  shows "\<exists>a. nodeValue n = VRef a \<and> a < length h"
proof (cases "nodeValue n")
  case (VRef a)
  then have "objTypeOf (deref h a) \<noteq> Ty_function" using assms
    by (auto simp add: isContainer_def nodeTypeOf_def)
  then have "a < length h" by (auto simp add: deref_def split: if_splits)
  then show ?thesis using VRef by simp
qed (use assms in \<open>simp_all add: isContainer_def nodeTypeOf_def\<close>)

lemma unvisited_card:
  "unvisited h (Some xs) = card {a. a < length h \<and> VRef a \<notin> set xs}"
proof -
  have "unvisited h (Some xs) = card ({a. VRef a \<notin> set xs} \<inter> set [0..<length h])"
    unfolding unvisited_def by (simp add: distinct_length_filter)
  also have "{a. VRef a \<notin> set xs} \<inter> set [0..<length h] = {a. a < length h \<and> VRef a \<notin> set xs}"
    by auto
  finally show ?thesis .
qed

lemma unvisited_mono: "set xs \<subseteq> set ys \<Longrightarrow> unvisited h (Some ys) \<le> unvisited h (Some xs)"
  unfolding unvisited_card by (rule card_mono) auto

lemma unvisited_less:
  assumes "a < length h" and "VRef a \<notin> set xs"
  shows "unvisited h (Some (xs @ [VRef a])) < unvisited h (Some xs)"
  unfolding unvisited_card
proof (rule psubset_card_mono)
  show "finite {b. b < length h \<and> VRef b \<notin> set xs}" by simp
  show "{b. b < length h \<and> VRef b \<notin> set (xs @ [VRef a])} \<subset> {b. b < length h \<and> VRef b \<notin> set xs}"
    using assms by auto
qed

lemma unvisited_refsGrow: "refsGrow rs rs' \<Longrightarrow> unvisited h rs' \<le> unvisited h rs"
  by (auto simp add: refsGrow_def unvisited_mono)

lemma returnsFrom_finishes:
  assumes "finishes g st c f" and "g c = Some xs"
  shows "returnsFrom g st c f"
proof -
  have "refsGrow (g c) (g c)" using assms(2) by (simp add: refsGrow_def)
  from finishesD [OF assms(1) this] show ?thesis by (simp add: returnsFrom_def)
qed

lemma returnsFrom_eq: "f c = f' c \<Longrightarrow> returnsFrom g st c f' \<Longrightarrow> returnsFrom g st c f"
  by (simp add: returnsFrom_def)

lemma returns_superVisit:
  assumes guard: "guardCircularRefs this"
    and rc: "refs c = Some xs"
    and self: "\<And>c1 l r. unvisited (heap env) (refs c1) < unvisited (heap env) (refs c)
                 \<Longrightarrow> finishes refs snd c1 (self l r)"
  shows "returnsFrom refs snd c (superVisit env this self lhs rhs)"
proof (cases "hasReference (refs c) rhs")
  case True
  then show ?thesis using rc by (simp add: returnsFrom_def superVisit_def ret_def refsGrow_def)
next
  case False
  show ?thesis
  proof (cases "isContainer (nodeTypeOf (heap env) rhs)")
    case False
    have "superVisit env this self lhs rhs c = visitOther env this lhs rhs c"
      using False \<open>\<not> hasReference (refs c) rhs\<close>
      by (cases "nodeTypeOf (heap env) rhs") (simp_all add: superVisit_def isContainer_def Let_def)
    then show ?thesis
      using returnsFrom_finishes [OF finishes_visitOther rc] by (rule returnsFrom_eq)
  next
    case True
    from container_is_ref [OF True] obtain a where a: "nodeValue rhs = VRef a" "a < length (heap env)"
      by blast
    have notin: "VRef a \<notin> set xs" using \<open>\<not> hasReference (refs c) rhs\<close> rc a by (simp add: hasReference_Some)
    define reg where "reg = c\<lparr>refs := Some (xs @ [VRef a])\<rparr>"
    have regrefs: "refs reg = Some (xs @ [VRef a])" by (simp add: reg_def)
    have "unvisited (heap env) (refs reg) < unvisited (heap env) (refs c)"
      using unvisited_less [OF a(2) notin] rc regrefs by simp
    then have fs: "\<And>l r. finishes refs snd reg (self l r)" by (rule self)
    have greg: "refsGrow (refs c) (refs reg)" using rc regrefs by (auto simp add: refsGrow_def)
    have regeq: "(if guardCircularRefs this then c\<lparr>refs := addReference (refs c) rhs\<rparr> else c) = reg"
      using guard rc a by (simp add: reg_def addReference_def)
    have "\<exists>f. superVisit env this self lhs rhs c = f reg \<and> finishes refs snd reg f"
    proof -
      consider (arr) "nodeTypeOf (heap env) rhs = Ty_array" | (set) "nodeTypeOf (heap env) rhs = Ty_set"
        | (map) "nodeTypeOf (heap env) rhs = Ty_map" | (obj) "nodeTypeOf (heap env) rhs = Ty_object"
        using True by (auto simp add: isContainer_def)
      then show ?thesis
      proof cases
        case arr
        have "superVisit env this self lhs rhs c = visitArray env this self lhs rhs reg"
          using arr \<open>\<not> hasReference (refs c) rhs\<close> regeq by (simp add: superVisit_def Let_def)
        moreover have "finishes refs snd reg (\<lambda>c. visitArray env this self lhs rhs c)"
          using fs by (rule finishes_visitArray)
        ultimately show ?thesis by blast
      next
        case set
        have "superVisit env this self lhs rhs c = visitSet env this self lhs rhs reg"
          using set \<open>\<not> hasReference (refs c) rhs\<close> regeq by (simp add: superVisit_def Let_def)
        moreover have "finishes refs snd reg (\<lambda>c. visitSet env this self lhs rhs c)"
          using fs by (rule finishes_visitSet)
        ultimately show ?thesis by blast
      next
        case map
        have "superVisit env this self lhs rhs c = visitMap env this self lhs rhs reg"
          using map \<open>\<not> hasReference (refs c) rhs\<close> regeq by (simp add: superVisit_def Let_def)
        moreover have "finishes refs snd reg (\<lambda>c. visitMap env this self lhs rhs c)"
          using fs by (rule finishes_visitMap)
        ultimately show ?thesis by blast
      next
        case obj
        have "superVisit env this self lhs rhs c = visitObject env this self lhs rhs reg"
          using obj \<open>\<not> hasReference (refs c) rhs\<close> regeq by (simp add: superVisit_def Let_def)
        moreover have "finishes refs snd reg (\<lambda>c. visitObject env this self lhs rhs c)"
          using fs by (rule finishes_visitObject)
        ultimately show ?thesis by blast
      qed
    qed
    then obtain f where f: "superVisit env this self lhs rhs c = f reg" "finishes refs snd reg f" by blast
    from returnsFrom_finishes [OF f(2) regrefs] obtain y where
      y: "f reg = Some y" "\<forall>r. y = Inr r \<longrightarrow> refsGrow (refs reg) (refs (snd r))"
      by (auto simp add: returnsFrom_def)
    have "\<forall>r. y = Inr r \<longrightarrow> refsGrow (refs c) (refs (snd r))"
      using y(2) greg refsGrow_trans by blast
    then show ?thesis using f(1) y(1) by (simp add: returnsFrom_def)
  qed
qed


lemma returnsFrom_if:
  "(P \<Longrightarrow> returnsFrom g st c (\<lambda>c. f c)) \<Longrightarrow> (\<not> P \<Longrightarrow> returnsFrom g st c (\<lambda>c. f' c))
   \<Longrightarrow> returnsFrom g st c (\<lambda>c. if P then f c else f' c)"
  by (simp add: returnsFrom_def)

lemma returnsFrom_option:
  "(x = None \<Longrightarrow> returnsFrom g st c (\<lambda>c. f c)) \<Longrightarrow> (\<And>y. x = Some y \<Longrightarrow> returnsFrom g st c (\<lambda>c. f' y c))
   \<Longrightarrow> returnsFrom g st c (\<lambda>c. case x of None \<Rightarrow> f c | Some y \<Rightarrow> f' y c)"
  by (cases x) (simp_all add: returnsFrom_def)

lemma returns_compareStep:
  assumes guard: "guardCircularRefs this"
    and rc: "refs c = Some xs"
    and self: "\<And>c1 l r. unvisited (heap env) (refs c1) < unvisited (heap env) (refs c)
                 \<Longrightarrow> finishes refs snd c1 (self l r)"
  shows "returnsFrom refs snd c (\<lambda>c. compareStep env this self lhs rhs c)"
proof -
  note ae = returnsFrom_finishes [OF finishes_areEqual rc]
  note ne = returnsFrom_finishes [OF finishes_notEqual rc]
  note nl = returnsFrom_finishes [OF finishes_noLhs rc]
  note nr = returnsFrom_finishes [OF finishes_noRhs rc]
  have sv: "\<And>l r. returnsFrom refs snd c (\<lambda>c. superVisit env this self l r c)"
    using guard rc self by (rule returns_superVisit)
  show ?thesis
    unfolding compareStep_def
    by (intro returnsFrom_if returnsFrom_option ae ne nl nr sv)
qed

lemma compare_finishes:
  assumes guard: "guardCircularRefs this"
  shows "unvisited (heap env) (refs c0) \<le> n \<Longrightarrow> finishes refs snd c0 (compare env this (Suc n) l r)"
proof (induction n arbitrary: c0 l r)
  case 0
  show ?case
  proof (rule finishesI)
    fix c :: compareContext assume gr: "refsGrow (refs c0) (refs c)"
    then obtain xs where rc: "refs c = Some xs" by (auto simp add: refsGrow_def)
    have "unvisited (heap env) (refs c) = 0" using unvisited_refsGrow [OF gr, of "heap env"] 0 by simp
    then have "returnsFrom refs snd c (compareStep env this (compare env this 0) l r)"
      using guard rc by (intro returns_compareStep) auto
    then show "\<exists>y. compare env this (Suc 0) l r c = Some y \<and> (\<forall>r. y = Inr r \<longrightarrow> refsGrow (refs c) (refs (snd r)))"
      by (simp add: returnsFrom_def)
  qed
next
  case (Suc n)
  show ?case
  proof (rule finishesI)
    fix c :: compareContext assume gr: "refsGrow (refs c0) (refs c)"
    then obtain xs where rc: "refs c = Some xs" by (auto simp add: refsGrow_def)
    have le: "unvisited (heap env) (refs c) \<le> Suc n"
      using unvisited_refsGrow [OF gr, of "heap env"] Suc.prems by simp
    have "returnsFrom refs snd c (compareStep env this (compare env this (Suc n)) l r)"
      using guard rc
    proof (rule returns_compareStep)
      fix c1 :: compareContext and l r
      assume "unvisited (heap env) (refs c1) < unvisited (heap env) (refs c)"
      then have "unvisited (heap env) (refs c1) \<le> n" using le by simp
      then show "finishes refs snd c1 (compare env this (Suc n) l r)" by (rule Suc.IH)
    qed
    then show "\<exists>y. compare env this (Suc (Suc n)) l r c = Some y \<and> (\<forall>r. y = Inr r \<longrightarrow> refsGrow (refs c) (refs (snd r)))"
      by (simp add: returnsFrom_def)
  qed
qed

lemma unvisited_empty: "unvisited h (Some []) = length h"
  by (simp add: unvisited_def)

lemma compare_returns_with_guard:
  assumes "guardCircularRefs this" and "length (heap env) < n"
  shows "\<exists>y. compare env this n l r (createContext this) = Some y"
proof -
  from assms(2) obtain m where n: "n = Suc m" by (cases n) auto
  have r0: "refs (createContext this) = Some []" using assms(1) by (simp add: createContext_def)
  have "unvisited (heap env) (refs (createContext this)) \<le> m"
    using assms(2) n r0 by (simp add: unvisited_empty)
  then have "finishes refs snd (createContext this) (compare env this (Suc m) l r)"
    by (rule compare_finishes [OF assms(1)])
  from returnsFrom_finishes [OF this r0] show ?thesis using n by (auto simp add: returnsFrom_def)
qed

lemma rbind_returns: "m = Some y \<Longrightarrow> (\<And>x. \<exists>z. f x = Some z) \<Longrightarrow> \<exists>z. rbind m f = Some z"
  by (cases y) auto

lemma equal_returns_with_guard:
  assumes "guardCircularRefs this" and "length (heap env) < n"
  shows "\<exists>y. equal env this n a b = Some y"
proof -
  have g: "guardCircularRefs (this\<lparr>algorithm := Equal\<rparr>)" using assms(1) by simp
  have c: "createContext (this\<lparr>algorithm := Equal\<rparr>) = createContext this" by (simp add: createContext_def)
  from compare_returns_with_guard [OF g assms(2), of "Some (rootNode a)" "Some (rootNode b)"]
  obtain y where "compare env (this\<lparr>algorithm := Equal\<rparr>) n (Some (rootNode a)) (Some (rootNode b)) (createContext this) = Some y"
    using c by auto
  then show ?thesis unfolding equal_def by (rule rbind_returns) (auto simp add: ret_def)
qed

lemma diff_returns_with_guard:
  assumes "guardCircularRefs this" and "length (heap env) < n"
  shows "\<exists>y. diff env this n a b = Some y"
proof -
  have g: "guardCircularRefs (this\<lparr>algorithm := Diff\<rparr>)" using assms(1) by simp
  have c: "createContext (this\<lparr>algorithm := Diff\<rparr>) = createContext this" by (simp add: createContext_def)
  from compare_returns_with_guard [OF g assms(2), of "Some (rootNode a)" "Some (rootNode b)"]
  obtain y where "compare env (this\<lparr>algorithm := Diff\<rparr>) n (Some (rootNode a)) (Some (rootNode b)) (createContext this) = Some y"
    using c by auto
  then show ?thesis unfolding diff_def by (rule rbind_returns) (auto simp add: ret_def)
qed


lemma finishes_traverseVisitNode:
  assumes nc: "noExplicitChildren callback"
    and self: "\<And>n. finishes (\<lambda>rs. rs) snd rs0 (self n)"
  shows "finishes (\<lambda>rs. rs) snd rs0 (\<lambda>rs. traverseVisitNode callback self n rs children)"
proof -
  define res where "res = (case callback of Some cb \<Rightarrow> cb n | None \<Rightarrow> CbBool True)"
  have nochildren: "\<And>ns. res \<noteq> CbChildren ns"
    using nc by (cases callback) (auto simp add: res_def noExplicitChildren_def)
  show ?thesis
  proof (cases res)
    case (CbChildren ns)
    then show ?thesis using nochildren by simp
  next
    case (CbStop x)
    then show ?thesis
      unfolding traverseVisitNode_def res_def [symmetric]
      by simp (rule finishes_ret)
  next
    case (CbBool b)
    show ?thesis
    proof (cases children)
      case None
      then show ?thesis using CbBool
        unfolding traverseVisitNode_def res_def [symmetric]
        by simp (rule finishes_ret)
    next
      case (Some cs)
      show ?thesis
      proof (cases b)
        case False
        then show ?thesis using CbBool Some
          unfolding traverseVisitNode_def res_def [symmetric]
          by simp (rule finishes_ret)
      next
        case True
        have "finishes (\<lambda>rs. rs) snd rs0 (\<lambda>rs. chain (visitEach self cs rs) (\<lambda>rs. ret (RBool True, rs)))"
          by (intro finishes_chain finishes_visitEach finishes_ret self)
        then show ?thesis using CbBool Some True
          unfolding traverseVisitNode_def res_def [symmetric] by simp
      qed
    qed
  qed
qed

lemma returns_visitStep:
  assumes nc: "noExplicitChildren callback"
    and rc: "rs = Some xs"
    and self: "\<And>rs1 n. unvisited h rs1 < unvisited h rs \<Longrightarrow> finishes (\<lambda>rs. rs) snd rs1 (self n)"
  shows "returnsFrom (\<lambda>rs. rs) snd rs (visitStep h True callback self n)"
proof (cases "hasReference rs n")
  case True
  then show ?thesis using rc by (simp add: returnsFrom_def visitStep_def ret_def refsGrow_def)
next
  case False
  show ?thesis
  proof (cases "isContainer (nodeTypeOf h n)")
    case False
    have "\<exists>y. traverseVisitNode callback self n rs None = Some y
            \<and> (\<forall>r. y = Inr r \<longrightarrow> snd r = rs)"
      using nc
      by (cases callback; cases "(case callback of Some cb \<Rightarrow> cb n | None \<Rightarrow> CbBool True)")
         (auto simp add: traverseVisitNode_def ret_def noExplicitChildren_def)
    then show ?thesis using False \<open>\<not> hasReference rs n\<close> rc
      by (auto simp add: returnsFrom_def visitStep_def refsGrow_def)
  next
    case True
    from container_is_ref [OF True] obtain a where a: "nodeValue n = VRef a" "a < length h" by blast
    have notin: "VRef a \<notin> set xs" using \<open>\<not> hasReference rs n\<close> rc a by (simp add: hasReference_Some)
    define reg where "reg = Some (xs @ [VRef a])"
    have "unvisited h reg < unvisited h rs" using unvisited_less [OF a(2) notin] rc by (simp add: reg_def)
    then have fs: "\<And>m. finishes (\<lambda>rs. rs) snd reg (self m)" by (rule self)
    have greg: "refsGrow rs reg" using rc by (auto simp add: refsGrow_def reg_def)
    have regeq: "addReference rs n = reg" using rc a by (simp add: reg_def addReference_def)
    have e: "visitStep h True callback self n rs = traverseVisitNode callback self n reg (Some (childNodes h n))"
      using True \<open>\<not> hasReference rs n\<close> regeq by (simp add: visitStep_def)
    have "finishes (\<lambda>rs. rs) snd reg (\<lambda>rs. traverseVisitNode callback self n rs (Some (childNodes h n)))"
      using nc fs by (rule finishes_traverseVisitNode)
    from returnsFrom_finishes [OF this, of "xs @ [VRef a]"] obtain y where
      y: "traverseVisitNode callback self n reg (Some (childNodes h n)) = Some y"
         "\<forall>r. y = Inr r \<longrightarrow> refsGrow reg (snd r)"
      by (auto simp add: returnsFrom_def reg_def)
    have "\<forall>r. y = Inr r \<longrightarrow> refsGrow rs (snd r)" using y(2) greg refsGrow_trans by blast
    then show ?thesis using e y(1) by (simp add: returnsFrom_def)
  qed
qed

lemma visit_finishes:
  assumes nc: "noExplicitChildren callback"
  shows "unvisited h rs0 \<le> k \<Longrightarrow> finishes (\<lambda>rs. rs) snd rs0 (visit h True callback (Suc k) n)"
proof (induction k arbitrary: rs0 n)
  case 0
  show ?case
  proof (rule finishesI)
    fix rs assume gr: "refsGrow rs0 rs"
    then obtain xs where rc: "rs = Some xs" by (auto simp add: refsGrow_def)
    have z: "unvisited h rs = 0" using unvisited_refsGrow [OF gr, of h] 0 by simp
    have "returnsFrom (\<lambda>rs. rs) snd rs (visitStep h True callback (visit h True callback 0) n)"
      using nc rc by (rule returns_visitStep) (simp add: z)
    then show "\<exists>y. visit h True callback (Suc 0) n rs = Some y \<and> (\<forall>r. y = Inr r \<longrightarrow> refsGrow rs (snd r))"
      by (simp add: returnsFrom_def)
  qed
next
  case (Suc k)
  show ?case
  proof (rule finishesI)
    fix rs assume gr: "refsGrow rs0 rs"
    then obtain xs where rc: "rs = Some xs" by (auto simp add: refsGrow_def)
    have le: "unvisited h rs \<le> Suc k" using unvisited_refsGrow [OF gr, of h] Suc.prems by simp
    have "returnsFrom (\<lambda>rs. rs) snd rs (visitStep h True callback (visit h True callback (Suc k)) n)"
      using nc rc
    proof (rule returns_visitStep)
      fix rs1 m
      assume "unvisited h rs1 < unvisited h rs"
      then have "unvisited h rs1 \<le> k" using le by simp
      then show "finishes (\<lambda>rs. rs) snd rs1 (visit h True callback (Suc k) m)" by (rule Suc.IH)
    qed
    then show "\<exists>y. visit h True callback (Suc (Suc k)) n rs = Some y \<and> (\<forall>r. y = Inr r \<longrightarrow> refsGrow rs (snd r))"
      by (simp add: returnsFrom_def)
  qed
qed

lemma traverse_returns_with_guard:
  assumes "noExplicitChildren callback" and "length h < k"
  shows "\<exists>y. traverse h True callback k v = Some y"
proof -
  from assms(2) obtain m where k: "k = Suc m" by (cases k) auto
  have "unvisited h (Some []) \<le> m" using assms(2) k by (simp add: unvisited_empty)
  then have "finishes (\<lambda>rs. rs) snd (Some []) (visit h True callback (Suc m) (rootNode v))"
    by (rule visit_finishes [OF assms(1)])
  from returnsFrom_finishes [OF this, of "[]"] obtain y where
    "visit h True callback k (rootNode v) (Some []) = Some y"
    using k by (auto simp add: returnsFrom_def)
  then show ?thesis unfolding traverse_def by simp (rule rbind_returns, auto simp add: ret_def)
qed


lemma container_registered:
  assumes "isContainer (nodeTypeOf h n)"
  shows "hasReference (addReference (Some xs) n) n"
proof -
  from container_is_ref [OF assms] obtain a where "nodeValue n = VRef a" by blast
  then show ?thesis by (simp add: addReference_def hasReference_Some)
qed

text \<open>
  Claim C8. With \<open>guardCircularRefs\<close> enabled:
  a node whose value is already registered is not descended into (\<open>visit\<close> returns
  \<open>false\<close> and the context is unchanged), in the traversal and in a comparison;
  the value of a container is registered before its visitor runs, so the children are
  visited from a context in which the container is found registered;
  and on every heap, cyclic or not, and all root values, \<open>traverse\<close> (with a callback
  that names no children itself), \<open>equal\<close> and \<open>diff\<close> return or throw as soon as the
  recursion budget exceeds the number of objects on the heap.
\<close>

theorem guard_registers_and_terminates:
  assumes guard: "guardCircularRefs this" and fuel: "length (heap env) < n"
    and nc: "noExplicitChildren callback"
  shows "(\<exists>y. traverse (heap env) True callback n v = Some y)
       \<and> (\<exists>y. equal env this n a b = Some y)
       \<and> (\<exists>y. diff env this n a b = Some y)
       \<and> (hasReference rs node \<longrightarrow>
            visit (heap env) True callback (Suc k) node rs = ret (RBool False, rs))
       \<and> (hasReference (refs ctx) rhs \<longrightarrow> superVisit env this self lhs rhs ctx = ret (RBool False, ctx))
       \<and> (isContainer (nodeTypeOf (heap env) node) \<longrightarrow> hasReference (addReference (Some xs) node) node)
       \<and> (isContainer (nodeTypeOf (heap env) node) \<and> \<not> hasReference rs node \<longrightarrow>
            visit (heap env) True callback (Suc k) node rs
              = traverseVisitNode callback (visit (heap env) True callback k) node (addReference rs node)
                  (Some (childNodes (heap env) node)))
       \<and> (\<not> hasReference (refs ctx) rhs \<longrightarrow>
            superVisit env this self lhs rhs ctx
              = (case nodeTypeOf (heap env) rhs of
                   Ty_array \<Rightarrow> visitArray env this self lhs rhs (ctx\<lparr>refs := addReference (refs ctx) rhs\<rparr>)
                 | Ty_set \<Rightarrow> visitSet env this self lhs rhs (ctx\<lparr>refs := addReference (refs ctx) rhs\<rparr>)
                 | Ty_map \<Rightarrow> visitMap env this self lhs rhs (ctx\<lparr>refs := addReference (refs ctx) rhs\<rparr>)
                 | Ty_object \<Rightarrow> visitObject env this self lhs rhs (ctx\<lparr>refs := addReference (refs ctx) rhs\<rparr>)
                 | _ \<Rightarrow> visitOther env this lhs rhs ctx))"
proof -
  have 1: "\<exists>y. traverse (heap env) True callback n v = Some y"
    using nc fuel by (rule traverse_returns_with_guard)
  have 2: "\<exists>y. equal env this n a b = Some y"
    using guard fuel by (rule equal_returns_with_guard)
  have 3: "\<exists>y. diff env this n a b = Some y"
    using guard fuel by (rule diff_returns_with_guard)
  have 4: "hasReference rs node \<longrightarrow>
            visit (heap env) True callback (Suc k) node rs = ret (RBool False, rs)"
    by (simp add: visitStep_def)
  have 5: "hasReference (refs ctx) rhs \<longrightarrow> superVisit env this self lhs rhs ctx = ret (RBool False, ctx)"
    by (simp add: superVisit_def)
  have 6: "isContainer (nodeTypeOf (heap env) node) \<longrightarrow> hasReference (addReference (Some xs) node) node"
    using container_registered by blast
  have 7: "isContainer (nodeTypeOf (heap env) node) \<and> \<not> hasReference rs node \<longrightarrow>
            visit (heap env) True callback (Suc k) node rs
              = traverseVisitNode callback (visit (heap env) True callback k) node (addReference rs node)
                  (Some (childNodes (heap env) node))"
    by (simp add: visitStep_def)
  have 8: "\<not> hasReference (refs ctx) rhs \<longrightarrow>
            superVisit env this self lhs rhs ctx
              = (case nodeTypeOf (heap env) rhs of
                   Ty_array \<Rightarrow> visitArray env this self lhs rhs (ctx\<lparr>refs := addReference (refs ctx) rhs\<rparr>)
                 | Ty_set \<Rightarrow> visitSet env this self lhs rhs (ctx\<lparr>refs := addReference (refs ctx) rhs\<rparr>)
                 | Ty_map \<Rightarrow> visitMap env this self lhs rhs (ctx\<lparr>refs := addReference (refs ctx) rhs\<rparr>)
                 | Ty_object \<Rightarrow> visitObject env this self lhs rhs (ctx\<lparr>refs := addReference (refs ctx) rhs\<rparr>)
                 | _ \<Rightarrow> visitOther env this lhs rhs ctx)"
    using guard by (cases "nodeTypeOf (heap env) rhs") (simp_all add: superVisit_def Let_def)
  show ?thesis using 1 2 3 4 5 6 7 8 by (intro conjI)
qed

theorem guard_registers_and_terminates_witness:
  "guardCircularRefs (defaultOptions\<lparr>guardCircularRefs := True\<rparr>)
   \<and> length (heap (simpleEnv twoCyclesHeap)) < 3
   \<and> noExplicitChildren None
   \<and> traverse (heap (simpleEnv twoCyclesHeap)) True None 3 (VRef 0) = Some (Inr None)
   \<and> equal (simpleEnv twoCyclesHeap) (defaultOptions\<lparr>guardCircularRefs := True\<rparr>) 3 (VRef 0) (VRef 1)
       = Some (Inr None)
   \<and> diff (simpleEnv twoCyclesHeap) (defaultOptions\<lparr>guardCircularRefs := True\<rparr>) 3 (VRef 0) (VRef 1)
       = Some (Inr [])
   \<and> hasReference (Some [VRef 0]) (rootNode (VRef 0))
   \<and> visit (heap (simpleEnv twoCyclesHeap)) True None (Suc 0) (rootNode (VRef 0)) (Some [VRef 0])
       = ret (RBool False, Some [VRef 0])
   \<and> hasReference (refs ((createContext (defaultOptions\<lparr>guardCircularRefs := True\<rparr>))\<lparr>refs := Some [VRef 1]\<rparr>))
         (rootNode (VRef 1))
   \<and> superVisit (simpleEnv twoCyclesHeap) (defaultOptions\<lparr>guardCircularRefs := True\<rparr>)
         (compare (simpleEnv twoCyclesHeap) (defaultOptions\<lparr>guardCircularRefs := True\<rparr>) 0)
         (rootNode (VRef 0)) (rootNode (VRef 1))
         ((createContext (defaultOptions\<lparr>guardCircularRefs := True\<rparr>))\<lparr>refs := Some [VRef 1]\<rparr>)
       = ret (RBool False, (createContext (defaultOptions\<lparr>guardCircularRefs := True\<rparr>))\<lparr>refs := Some [VRef 1]\<rparr>)
   \<and> isContainer (nodeTypeOf (heap (simpleEnv twoCyclesHeap)) (rootNode (VRef 0)))
   \<and> hasReference (addReference (Some []) (rootNode (VRef 0))) (rootNode (VRef 0))"
proof -
  let ?opts = "defaultOptions\<lparr>guardCircularRefs := True\<rparr>"
  let ?env = "simpleEnv twoCyclesHeap"
  let ?ctx = "(createContext ?opts)\<lparr>refs := Some [VRef 1]\<rparr>"
  have g: "guardCircularRefs ?opts" by simp
  have l: "length (heap ?env) < 3" by (simp add: simpleEnv_def twoCyclesHeap_def)
  have nc: "noExplicitChildren None" by (simp add: noExplicitChildren_def)
  note inst = guard_registers_and_terminates [OF g l nc, of "VRef 0" "VRef 0" "VRef 1"
      "Some [VRef 0]" "rootNode (VRef 0)" 0 ?ctx "rootNode (VRef 1)"
      "compare ?env ?opts 0" "rootNode (VRef 0)" "[]"]
  have t: "traverse (heap ?env) True None 3 (VRef 0) = Some (Inr None)" by code_simp
  have e: "equal ?env ?opts 3 (VRef 0) (VRef 1) = Some (Inr None)" by code_simp
  have d: "diff ?env ?opts 3 (VRef 0) (VRef 1) = Some (Inr [])" by code_simp
  have h1: "hasReference (Some [VRef 0]) (rootNode (VRef 0))" by code_simp
  have h2: "hasReference (refs ?ctx) (rootNode (VRef 1))" by code_simp
  have c: "isContainer (nodeTypeOf (heap ?env) (rootNode (VRef 0)))" by code_simp
  have v: "visit (heap ?env) True None (Suc 0) (rootNode (VRef 0)) (Some [VRef 0])
             = ret (RBool False, Some [VRef 0])"
    using inst h1 by blast
  have sv: "superVisit ?env ?opts (compare ?env ?opts 0) (rootNode (VRef 0)) (rootNode (VRef 1)) ?ctx
             = ret (RBool False, ?ctx)"
    using inst h2 by blast
  have r: "hasReference (addReference (Some []) (rootNode (VRef 0))) (rootNode (VRef 0))"
    using inst c by blast
  show ?thesis using g l nc t e d h1 v h2 sv c r by (intro conjI)
qed

section \<open>Diff, apply and compare again on objects whose properties are leaves\<close>

lemma primitive_type: "primitive v \<Longrightarrow> updateNodeTypeOf h v = updateNodeTypeOf [] v"
  by (cases v) (simp_all add: primitive_def)

lemma primitive_not_container:
  "primitive v \<Longrightarrow> updateNodeTypeOf [] v \<notin> {Ty_array, Ty_set, Ty_map, Ty_object, Ty_undefined}"
  by (cases v) (simp_all add: primitive_def)

lemma primitive_not_registered:
  "primitive (nodeValue n) \<Longrightarrow> registeredRefs c \<Longrightarrow> \<not> hasReference (refs c) n"
  by (cases "refs c")
     (auto simp add: registeredRefs_def hasReference_def indexOfReference_def findIndex_nonneg objectIs_def primitive_def
        split: val.splits)

lemma leafResult_Some: "primitive l \<Longrightarrow> primitive r \<Longrightarrow> \<exists>c. leafResult env this t l r = Some c"
  unfolding leafResult_def primitive_def
  by (auto simp add: compareNumbers_result split: kind.split val.split)

lemma superVisit_leaf:
  assumes "\<not> hasReference (refs c) r"
    and "nodeTypeOf (heap env) r \<notin> {Ty_array, Ty_set, Ty_map, Ty_object}"
  shows "superVisit env this self l r c = visitOther env this l r c"
  using assms unfolding superVisit_def Let_def by (simp split: kind.split)

lemma compareStep_leaves:
  assumes "primitive l" "primitive r" "registeredRefs c"
  shows "compareStep env this self (Some (Node l p pos par)) (Some (Node r p' pos par')) c =
           (if objectIs l r then ret (areEqual c IS_SAME)
            else if updateNodeTypeOf [] l = updateNodeTypeOf [] r
            then visitOther env this (Node l p pos par) (Node r p' pos par') c
            else if looseEquality this \<and> looseEq env l r then ret (areEqual c IS_EQUAL_B)
            else notEqual env this c (Node l p pos par) (Node r p' pos par') NOT_EQUAL)"
proof -
  let ?l = "Node l p pos par" and ?r = "Node r p' pos par'"
  have nr: "\<not> hasReference (refs c) ?r" using assms(2,3) by (simp add: primitive_not_registered)
  have tl: "nodeTypeOf (heap env) ?l = updateNodeTypeOf [] l" using primitive_type [OF assms(1)] by (simp add: nodeTypeOf_def)
  have tr: "nodeTypeOf (heap env) ?r = updateNodeTypeOf [] r" using primitive_type [OF assms(2)] by (simp add: nodeTypeOf_def)
  have nc: "nodeTypeOf (heap env) ?r \<notin> {Ty_array, Ty_set, Ty_map, Ty_object}"
    using primitive_not_container [OF assms(2)] tr by simp
  have sv: "superVisit env this self ?l ?r c = visitOther env this ?l ?r c"
    using nr nc by (rule superVisit_leaf)
  have ul: "l \<noteq> VUndefined" using assms(1) by (auto simp add: primitive_def)
  have ur: "r \<noteq> VUndefined" using assms(2) by (auto simp add: primitive_def)
  show ?thesis
    unfolding compareStep_def
    by (simp add: sv tl tr ul ur)
qed

lemma visitOther_leaves:
  assumes "primitive l" "primitive r"
  shows "\<exists>x. leafResult env this (updateNodeTypeOf [] r) l r = Some x
           \<and> visitOther env this (Node l p pos par) (Node r p' pos par') c =
               (if IS_EQUAL x then ret (areEqual c x)
                else notEqual env this c (Node l p pos par) (Node r p' pos par') x)"
proof -
  obtain x where x: "leafResult env this (updateNodeTypeOf [] r) l r = Some x"
    using leafResult_Some [OF assms(1,2)] by blast
  have "nodeTypeOf (heap env) (Node r p' pos par') = updateNodeTypeOf [] r"
    using primitive_type [OF assms(2)] by (simp add: nodeTypeOf_def)
  moreover have "\<not> viewReadFails env (updateNodeTypeOf [] r) l r"
    using viewReadFails_refs [of env "updateNodeTypeOf [] r" l r] assms(2) by (auto simp add: primitive_def)
  ultimately show ?thesis using x by (simp add: visitOther_def)
qed

lemma areEqual_Diff:
  "\<exists>c'. ret (areEqual c x) = Some (Inr (RBool False, c')) \<and> changes c' = changes c
        \<and> searching c' = searching c \<and> refs c' = refs c"
  by (simp add: areEqual_def ret_def)

lemma notEqual_Diff:
  assumes "algorithm this = Diff" "\<not> searching c"
  shows "\<exists>c'. notEqual env this c l r x = Some (Inr (RBool True, c'))
        \<and> changes c' = changes c @ [EditLhs (makePath env this r) (nodeValue r)]
        \<and> searching c' = searching c \<and> refs c' = refs c"
  using assms by (simp add: notEqual_def ret_def createEdit_def)

lemma compare_leaves_Diff:
  assumes pl: "primitive l" and pr: "primitive r" and rr: "registeredRefs c"
    and alg: "algorithm this = Diff" and ns: "\<not> searching c"
  shows "\<exists>b c'. compare env this (Suc n) (Some (Node l p pos par)) (Some (Node r p' pos par')) c
                   = Some (Inr (RBool b, c'))
              \<and> changes c' = changes c @ (if leafSame env this l r then []
                                           else [EditLhs (makePath env this (Node r p' pos par')) r])
              \<and> searching c' = searching c \<and> refs c' = refs c"
proof -
  let ?l = "Node l p pos par" and ?r = "Node r p' pos par'"
  let ?goal = "\<lambda>res same. \<exists>b c'. res = Some (Inr (RBool b, c'))
              \<and> changes c' = changes c @ (if same then [] else [EditLhs (makePath env this ?r) r])
              \<and> searching c' = searching c \<and> refs c' = refs c"
  have eqv: "\<And>x. ?goal (ret (areEqual c x)) True"
    using areEqual_Diff by fastforce
  have nev: "\<And>x. ?goal (notEqual env this c ?l ?r x) False"
    using notEqual_Diff [OF alg ns, of env ?l ?r] by fastforce
  obtain x where x: "leafResult env this (updateNodeTypeOf [] r) l r = Some x"
    and vo: "visitOther env this ?l ?r c =
               (if IS_EQUAL x then ret (areEqual c x) else notEqual env this c ?l ?r x)"
    using visitOther_leaves [OF pl pr] by blast
  have step: "compare env this (Suc n) (Some ?l) (Some ?r) c =
           (if objectIs l r then ret (areEqual c IS_SAME)
            else if updateNodeTypeOf [] l = updateNodeTypeOf [] r
            then visitOther env this ?l ?r c
            else if looseEquality this \<and> looseEq env l r then ret (areEqual c IS_EQUAL_B)
            else notEqual env this c ?l ?r NOT_EQUAL)"
    using compareStep_leaves [OF pl pr rr] by simp
  consider (same) "objectIs l r"
    | (eq) "\<not> objectIs l r" "updateNodeTypeOf [] l = updateNodeTypeOf [] r" "IS_EQUAL x"
    | (ne) "\<not> objectIs l r" "updateNodeTypeOf [] l = updateNodeTypeOf [] r" "\<not> IS_EQUAL x"
    | (loose) "\<not> objectIs l r" "updateNodeTypeOf [] l \<noteq> updateNodeTypeOf [] r" "looseEquality this \<and> looseEq env l r"
    | (diff) "\<not> objectIs l r" "updateNodeTypeOf [] l \<noteq> updateNodeTypeOf [] r" "\<not> (looseEquality this \<and> looseEq env l r)"
    by blast
  then show ?thesis
  proof cases
    case same
    then have "leafSame env this l r" by (simp add: leafSame_def)
    then show ?thesis using eqv [of IS_SAME] step same by simp
  next
    case eq
    then have "leafSame env this l r" using x by (simp add: leafSame_def)
    then show ?thesis using eqv [of x] step eq vo by simp
  next
    case ne
    then have "\<not> leafSame env this l r" using x by (simp add: leafSame_def)
    then show ?thesis using nev [of x] step ne vo by simp
  next
    case loose
    then have "leafSame env this l r" by (simp add: leafSame_def)
    then show ?thesis using eqv [of IS_EQUAL_B] step loose by simp
  next
    case diff
    then have "\<not> leafSame env this l r" by (simp add: leafSame_def)
    then show ?thesis using nev [of NOT_EQUAL] step diff by simp
  qed
qed

lemma visitEach_appends:
  assumes step: "\<And>x c. x \<in> set xs \<Longrightarrow> I c \<Longrightarrow>
                   \<exists>b c'. step x c = Some (Inr (RBool b, c')) \<and> I c' \<and> changes c' = changes c @ g x"
    and "I c"
  shows "\<exists>c'. visitEach step xs c = Some (Inr (RBool False, c')) \<and> I c'
           \<and> changes c' = changes c @ concat (map g xs)"
  using assms
proof (induction xs arbitrary: c)
  case Nil
  then show ?case by (simp add: ret_def)
next
  case (Cons x xs)
  from Cons.prems(1) [of x c] Cons.prems(2)
  obtain b c1 where c1: "step x c = Some (Inr (RBool b, c1))" "I c1" "changes c1 = changes c @ g x"
    by auto
  have "\<exists>c'. visitEach step xs c1 = Some (Inr (RBool False, c')) \<and> I c'
           \<and> changes c' = changes c1 @ concat (map g xs)"
    using Cons.prems(1) c1(2) by (intro Cons.IH) auto
  then obtain c' where c': "visitEach step xs c1 = Some (Inr (RBool False, c'))" "I c'"
    "changes c' = changes c1 @ concat (map g xs)" by blast
  show ?case using c1 c' by simp
qed




lemma makePath_property:
  "nodeTypeOf (heap env) (rootNode v) = Ty_object \<Longrightarrow>
   makePath env this (Node w (Some (PName k)) pos (Some (rootNode v))) = [propertySegment k]"
  by (simp add: rootNode_def propertySegment_def Let_def)

lemma registeredRefs_cong: "refs c' = refs c \<Longrightarrow> registeredRefs c \<Longrightarrow> registeredRefs c'"
  by (simp add: registeredRefs_def)


lemma compareNumbers_algorithm [simp]: "compareNumbers (this\<lparr>algorithm := x\<rparr>) a b = compareNumbers this a b"
  by (simp add: compareNumbers_def)

lemma defaultCompare_algorithm [simp]: "defaultCompare env (this\<lparr>algorithm := x\<rparr>) l r = defaultCompare env this l r"
  by (simp add: defaultCompare_def)

lemma leafResult_algorithm [simp]: "leafResult env (this\<lparr>algorithm := x\<rparr>) t l r = leafResult env this t l r"
  unfolding leafResult_def compareNumbers_algorithm defaultCompare_algorithm by (rule refl)

lemma leafSame_algorithm [simp]: "leafSame env (this\<lparr>algorithm := x\<rparr>) l r = leafSame env this l r"
  by (simp add: leafSame_def)

lemma defaultCompare_heap [simp]: "defaultCompare (env\<lparr>heap := h\<rparr>) this l r = defaultCompare env this l r"
  by (simp add: defaultCompare_def)


lemma objectChanges_algorithm [simp]:
  "objectChanges env (this\<lparr>algorithm := x\<rparr>) pa pb = objectChanges env this pa pb"
  by (simp add: objectChanges_def)





lemma hasReference_initial [simp]: "\<not> hasReference (refs (createContext this)) n"
  by (simp add: createContext_def hasReference_def indexOfReference_def)



lemma root_context [simp]:
  "\<not> searching (if g then (createContext this)\<lparr>refs := rs\<rparr> else createContext this)"
  "changes (if g then (createContext this)\<lparr>refs := rs\<rparr> else createContext this) = []"
  "result (if g then (createContext this)\<lparr>refs := rs\<rparr> else createContext this) = None"
  by (simp_all add: createContext_def)




























section \<open>Tail-first emission for arrays compared by index\<close>

lemma emitsAt_refl: "emitsAt pre i c c"
  by (simp add: emitsAt_def)

lemma emitsAt_trans: "transp (emitsAt pre i)"
  unfolding transp_def emitsAt_def
proof (intro allI impI)
  fix x y z
  assume 1: "\<exists>new. changes y = changes x @ new \<and> (\<forall>ch\<in>set new. indexUnder pre ch = Some i)"
    and 2: "\<exists>new. changes z = changes y @ new \<and> (\<forall>ch\<in>set new. indexUnder pre ch = Some i)"
  from 1 obtain n1 where n1: "changes y = changes x @ n1" "\<forall>ch\<in>set n1. indexUnder pre ch = Some i" by auto
  from 2 obtain n2 where n2: "changes z = changes y @ n2" "\<forall>ch\<in>set n2. indexUnder pre ch = Some i" by auto
  have "changes z = changes x @ (n1 @ n2)" using n1 n2 by simp
  moreover have "\<forall>ch\<in>set (n1 @ n2). indexUnder pre ch = Some i" using n1 n2 by auto
  ultimately show "\<exists>new. changes z = changes x @ new \<and> (\<forall>ch\<in>set new. indexUnder pre ch = Some i)" by blast
qed

lemma emitsAt_same: "sameOutcome c c' \<Longrightarrow> emitsAt pre i c c'"
  by (simp add: emitsAt_def sameOutcome_def)

lemma underIndex_child:
  "underIndex env this pre i n \<Longrightarrow> underIndex env this pre i (Node v p pos (Some n))"
  by (auto simp add: underIndex_def Let_def)

lemma indexUnder_path:
  assumes "p = pre @ s # rest" "typeOf s = Ty_array" "segment s = Some (PIndex i)"
  shows "indexUnder pre (RemoveFromLhs p) = Some i" and "indexUnder pre (EditLhs p v) = Some i"
  using assms by (simp_all add: indexUnder_def Let_def nth_append)

lemma indexUnder_addition:
  assumes "typeOf s = Ty_array"
  shows "indexUnder pre (AddToLhs (pre @ [s\<lparr>segment := Some (PIndex (- i - 1))\<rparr>]) v) = Some i"
    and "rest \<noteq> [] \<Longrightarrow> segment s = Some (PIndex i) \<Longrightarrow> indexUnder pre (AddToLhs (pre @ s # rest) v) = Some i"
  using assms by (simp_all add: indexUnder_def Let_def nth_append)

lemma createAdd_index:
  assumes "underIndex env this pre i n" and "createAdd env this n = Inr ch"
  shows "indexUnder pre ch = Some i"
proof -
  from assms(1) obtain s rest where p: "makePath env this n = pre @ s # rest" "typeOf s = Ty_array"
    "segment s = Some (PIndex i)" by (auto simp add: underIndex_def)
  show ?thesis
  proof (cases rest rule: rev_cases)
    case Nil
    then have "ch = AddToLhs (pre @ [s\<lparr>segment := Some (PIndex (- i - 1))\<rparr>]) (nodeValue n)"
      using p assms(2) by (auto simp add: createAdd_def Let_def butlast_append)
    then show ?thesis using indexUnder_addition(1) [OF p(2)] by simp
  next
    case (snoc ys y)
    then obtain y' where "ch = AddToLhs (pre @ s # (ys @ [y'])) (nodeValue n)"
      using p assms(2) by (auto simp add: createAdd_def Let_def butlast_append split: if_splits)
    then show ?thesis using indexUnder_addition(2) [OF p(2) _ p(3), of "ys @ [y']" pre "nodeValue n"] by simp
  qed
qed

lemma keeps_emitsAt_areEqual: "keeps (emitsAt pre i) (\<lambda>c. ret (areEqual c x))"
  by (simp add: keeps_def areEqual_def ret_def emitsAt_def)

lemma keeps_emitsAt_notEqual:
  assumes "underIndex env this pre i r"
  shows "keeps (emitsAt pre i) (\<lambda>c. notEqual env this c l r x)"
proof -
  from assms obtain s rest where p: "makePath env this r = pre @ s # rest" "typeOf s = Ty_array"
    "segment s = Some (PIndex i)" by (auto simp add: underIndex_def)
  have "indexUnder pre (EditLhs (makePath env this r) (nodeValue r)) = Some i"
    using indexUnder_path(2) [OF p] by simp
  then show ?thesis
    by (cases "algorithm this") (auto simp add: keeps_def notEqual_def ret_def emitsAt_def createEdit_def)
qed

lemma keeps_emitsAt_noRhs:
  assumes "underIndex env this pre i l"
  shows "keeps (emitsAt pre i) (\<lambda>c. noRhs env this c l)"
proof -
  from assms obtain s rest where p: "makePath env this l = pre @ s # rest" "typeOf s = Ty_array"
    "segment s = Some (PIndex i)" by (auto simp add: underIndex_def)
  have "indexUnder pre (RemoveFromLhs (makePath env this l)) = Some i"
    using indexUnder_path(1) [OF p] by simp
  then show ?thesis
    by (cases "algorithm this") (auto simp add: keeps_def noRhs_def ret_def emitsAt_def createRemove_def)
qed

lemma keeps_emitsAt_noLhs:
  "underIndex env this pre i r \<Longrightarrow> keeps (emitsAt pre i) (\<lambda>c. noLhs env this c r)"
  by (cases "algorithm this"; cases "createAdd env this r")
     (auto simp add: keeps_def noLhs_def ret_def throw_def emitsAt_def createAdd_index split: if_splits)

lemma invariantFor_emitsAt: "invariantFor env this (emitsAt pre i) (underIndex env this pre i)"
  unfolding invariantFor_def
  by (intro conjI allI impI emitsAt_trans emitsAt_same keeps_emitsAt_areEqual keeps_emitsAt_notEqual
        keeps_emitsAt_noLhs keeps_emitsAt_noRhs underIndex_child)

lemma nthOpt_arrayElementNodes:
  assumes "nthOpt (arrayElementNodes env this arr) (int i) = Some x"
  shows "\<exists>v pos. x = Node v (Some (PIndex (int i))) pos (Some arr)"
  using assms
  by (auto simp add: nthOpt_def arrayElementNodes_def createArrayElementNode_def nth_enumerate_eq
        split: if_splits)

lemma element_path:
  "nodeTypeOf (heap env) arr = Ty_array \<Longrightarrow>
   makePath env this (Node v (Some (PIndex i)) pos (Some arr)) = makePath env this arr @ [arraySegment i]"
  by (simp add: Let_def arraySegment_def)

lemma underIndex_element:
  assumes "nodeTypeOf (heap env) arr = Ty_array"
    and "nthOpt (arrayElementNodes env this' arr) (int i) = Some x"
  shows "underIndex env this (makePath env this arr) (int i) x"
proof -
  from nthOpt_arrayElementNodes [OF assms(2)] obtain v pos
    where "x = Node v (Some (PIndex (int i))) pos (Some arr)" by blast
  then show ?thesis using element_path [OF assms(1)] by (simp add: underIndex_def arraySegment_def)
qed

lemma pred_option_element:
  assumes "nodeTypeOf (heap env) arr = Ty_array"
  shows "pred_option (underIndex env this (makePath env this arr) (int i))
           (nthOpt (arrayElementNodes env this' arr) (int i))"
  using underIndex_element [OF assms]
  by (cases "nthOpt (arrayElementNodes env this' arr) (int i)") auto

lemma sorted_wrt_replicate_ge: "sorted_wrt (\<ge>) (replicate n (k :: int))"
  by (induction n) auto

lemma visitEach_descending:
  assumes steps: "\<And>i. i \<in> set is \<Longrightarrow> keeps (emitsAt pre (int i)) (step i)"
    and desc: "sorted_wrt (>) is"
    and run: "visitEach step is c = Some (Inr (v, c'))"
  shows "emitsDescending pre is c c'"
  using steps desc run
proof (induction "is" arbitrary: c)
  case Nil
  then show ?case by (simp add: ret_def emitsDescending_def)
next
  case (Cons i "is")
  have ki: "keeps (emitsAt pre (int i)) (step i)" using Cons.prems(1) by simp
  from Cons.prems(3) have "chain (step i c) (visitEach step is) = Some (Inr (v, c'))" by simp
  from chain_Inr [OF this]
  consider n where "step i c = Some (Inr (RNode n, c'))"
    | b c1 where "step i c = Some (Inr (RBool b, c1))" "visitEach step is c1 = Some (Inr (v, c'))"
    by auto
  then show ?case
  proof cases
    case 1
    then have "emitsAt pre (int i) c c'" by (rule keepsD [OF ki])
    then obtain new where new: "changes c' = changes c @ new" "\<forall>ch\<in>set new. indexUnder pre ch = Some (int i)"
      by (auto simp add: emitsAt_def)
    have "map (indexUnder pre) new = map Some (replicate (length new) (int i))"
      using new(2) by (simp add: map_replicate_const [symmetric] cong: map_cong)
    moreover have "sorted_wrt (\<ge>) (replicate (length new) (int i))"
      by (simp add: sorted_wrt_replicate_ge)
    ultimately show ?thesis using new(1) unfolding emitsDescending_def
      by (intro exI [of _ new] exI [of _ "replicate (length new) (int i)"]) auto
  next
    case 2
    have "emitsAt pre (int i) c c1" using 2(1) by (rule keepsD [OF ki])
    then obtain new1 where new1: "changes c1 = changes c @ new1" "\<forall>ch\<in>set new1. indexUnder pre ch = Some (int i)"
      by (auto simp add: emitsAt_def)
    have "emitsDescending pre is c1 c'"
      using Cons.prems(1,2) 2(2) by (intro Cons.IH) auto
    then obtain new2 js where new2: "changes c' = changes c1 @ new2" "map (indexUnder pre) new2 = map Some js"
      "sorted_wrt (\<ge>) js" "\<forall>j \<in> set js. \<exists>k \<in> set is. j = int k"
      by (auto simp add: emitsDescending_def)
    have lt: "\<forall>j \<in> set js. j \<le> int i" using new2(4) Cons.prems(2) by fastforce
    let ?js = "replicate (length new1) (int i) @ js"
    have a: "changes c' = changes c @ (new1 @ new2)" using new1 new2 by simp
    have b: "map (indexUnder pre) (new1 @ new2) = map Some ?js"
      using new1(2) new2(2) by (simp add: map_replicate_const [symmetric] cong: map_cong)
    have c: "sorted_wrt (\<ge>) ?js"
      using new2(3) lt by (auto simp add: sorted_wrt_append sorted_wrt_replicate_ge)
    have d: "\<forall>j \<in> set ?js. \<exists>k \<in> set (i # is). j = int k" using new2(4) by auto
    show ?thesis unfolding emitsDescending_def using a b c d by blast
  qed
qed

lemma rev_upt_descending: "sorted_wrt (>) (rev [n..<m])"
  by (simp add: sorted_wrt_rev)

lemma chain_assoc: "chain (chain m k) k' = chain m (\<lambda>c. chain (k c) k')"
  by (cases "(m, k)" rule: chain.cases) simp_all

lemma visitEach_append: "visitEach step (xs @ ys) c = chain (visitEach step xs c) (visitEach step ys)"
proof (induction xs arbitrary: c)
  case Nil
  show ?case by (simp add: ret_def)
next
  case (Cons x xs)
  have "visitEach step ((x # xs) @ ys) c = chain (step x c) (\<lambda>c1. visitEach step (xs @ ys) c1)" by simp
  also have "\<dots> = chain (step x c) (\<lambda>c1. chain (visitEach step xs c1) (visitEach step ys))"
    by (simp only: Cons.IH)
  also have "\<dots> = chain (chain (step x c) (visitEach step xs)) (visitEach step ys)"
    by (rule chain_assoc [symmetric])
  finally show ?case by simp
qed

lemma length_arrayElementNodes [simp]:
  "length (arrayElementNodes env this arr) = length (arrayElements (heap env) (nodeValue arr))"
  by (simp add: arrayElementNodes_def)

lemma nthOpt_elements:
  assumes "\<not> laxArrayOrdering this"
  shows "nthOpt (arrayElementNodes env this arr) (int i) =
           (if i < length (arrayElements (heap env) (nodeValue arr))
            then Some (Node (arrayElements (heap env) (nodeValue arr) ! i) (Some (PIndex (int i))) (Some i) (Some arr))
            else None)"
  using assms
  by (simp add: nthOpt_def arrayElementNodes_def createArrayElementNode_def nth_enumerate_eq)

lemma indexUnder_surplus:
  "indexUnder pre (RemoveFromLhs (pre @ [arraySegment i])) = Some i"
  "indexUnder pre (AddToLhs (pre @ [arraySegment (- i - 1)]) v) = Some i"
  "indexUnder pre (EditLhs (pre @ [arraySegment i]) v) = Some i"
  by (simp_all add: indexUnder_def arraySegment_def Let_def nth_append)

lemma createAdd_element:
  assumes "nodeTypeOf (heap env) arr = Ty_array"
  shows "createAdd env this (Node v (Some (PIndex i)) pos (Some arr))
           = Inr (AddToLhs (makePath env this arr @ [arraySegment (- i - 1)]) v)"
  using assms by (simp add: createAdd_def Let_def arraySegment_def)

lemma surplus_steps:
  assumes strict: "\<not> laxArrayOrdering this" and alg: "algorithm this = Diff"
    and ta: "nodeTypeOf (heap env) lhs = Ty_array" and tb: "nodeTypeOf (heap env) rhs = Ty_array"
    and pl: "makePath env this lhs = pre" and pr: "makePath env this rhs = pre"
    and ns: "\<not> searching c"
    and ls: "ls = arrayElements (heap env) (nodeValue lhs)" and rs: "rs = arrayElements (heap env) (nodeValue rhs)"
  shows "\<exists>c1. visitEach (\<lambda>i c. compare env this (Suc m) (nthOpt (arrayElementNodes env this lhs) (int i))
                                     (nthOpt (arrayElementNodes env this rhs) (int i)) c)
                 (rev [min (length ls) (length rs)..<max (length ls) (length rs)]) c
               = Some (Inr (RBool False, c1))
            \<and> (\<not> searching c1 \<and> refs c1 = refs c)
            \<and> changes c1 = changes c @ surplusChanges pre ls rs"
proof -
  let ?step = "\<lambda>i c. compare env this (Suc m) (nthOpt (arrayElementNodes env this lhs) (int i))
                                     (nthOpt (arrayElementNodes env this rhs) (int i)) c"
  let ?is = "rev [min (length ls) (length rs)..<max (length ls) (length rs)]"
  let ?I = "\<lambda>x :: compareContext. \<not> searching x \<and> refs x = refs c"
  let ?g = "\<lambda>i. [if i < length ls then RemoveFromLhs (pre @ [arraySegment (int i)])
                   else AddToLhs (pre @ [arraySegment (- int i - 1)]) (rs ! i)]"
  have st: "\<And>x c0. x \<in> set ?is \<Longrightarrow> ?I c0 \<Longrightarrow>
                   \<exists>b c'. ?step x c0 = Some (Inr (RBool b, c')) \<and> ?I c' \<and> changes c' = changes c0 @ ?g x"
  proof -
    fix x and c0 :: compareContext
    assume x: "x \<in> set ?is" and I: "?I c0"
    show "\<exists>b c'. ?step x c0 = Some (Inr (RBool b, c')) \<and> ?I c' \<and> changes c' = changes c0 @ ?g x"
    proof (cases "x < length ls")
      case True
      then have "\<not> x < length rs" using x by auto
      then show ?thesis using True I alg strict ls rs pl
        by (auto simp add: nthOpt_elements compareStep_def noRhs_def ret_def createRemove_def
              element_path [OF ta] simp del: makePath.simps)
    next
      case False
      then have "x < length rs" using x by auto
      then show ?thesis using False I alg strict ls rs pr
        by (auto simp add: nthOpt_elements compareStep_def noLhs_def ret_def
              createAdd_element [OF tb] simp del: makePath.simps)
    qed
  qed
  have I0: "?I c" using ns by simp
  from visitEach_appends [of ?is ?I ?step ?g, OF st I0]
  obtain c1 where c1: "visitEach ?step ?is c = Some (Inr (RBool False, c1))" "?I c1"
    "changes c1 = changes c @ concat (map ?g ?is)" by blast
  have "concat (map ?g ?is) = surplusChanges pre ls rs"
    by (simp add: surplusChanges_def concat_map_singleton)
  then show ?thesis using c1 by auto
qed

lemma leaf_steps:
  assumes strict: "\<not> laxArrayOrdering this" and alg: "algorithm this = Diff"
    and ta: "nodeTypeOf (heap env) lhs = Ty_array" and tb: "nodeTypeOf (heap env) rhs = Ty_array"
    and pr: "makePath env this rhs = pre"
    and ns: "\<not> searching c" and rr: "registeredRefs c"
    and ls: "ls = arrayElements (heap env) (nodeValue lhs)" and rs: "rs = arrayElements (heap env) (nodeValue rhs)"
    and prim: "\<forall>x \<in> set ls \<union> set rs. primitive x"
  shows "\<exists>c1. visitEach (\<lambda>i c. compare env this (Suc m) (nthOpt (arrayElementNodes env this lhs) (int i))
                                     (nthOpt (arrayElementNodes env this rhs) (int i)) c)
                 (rev [0..<min (length ls) (length rs)]) c
               = Some (Inr (RBool False, c1))
            \<and> changes c1 = changes c @ leafEdits env this pre ls rs"
proof -
  let ?step = "\<lambda>i c. compare env this (Suc m) (nthOpt (arrayElementNodes env this lhs) (int i))
                                     (nthOpt (arrayElementNodes env this rhs) (int i)) c"
  let ?is = "rev [0..<min (length ls) (length rs)]"
  let ?I = "\<lambda>x :: compareContext. \<not> searching x \<and> refs x = refs c"
  let ?g = "\<lambda>i. if leafSame env this (ls ! i) (rs ! i) then []
                       else [EditLhs (pre @ [arraySegment (int i)]) (rs ! i)]"
  have st: "\<And>x c0. x \<in> set ?is \<Longrightarrow> ?I c0 \<Longrightarrow>
                   \<exists>b c'. ?step x c0 = Some (Inr (RBool b, c')) \<and> ?I c' \<and> changes c' = changes c0 @ ?g x"
  proof -
    fix x and c0 :: compareContext
    assume x: "x \<in> set ?is" and I: "?I c0"
    have xl: "x < length ls" and xr: "x < length rs" using x by auto
    have pl: "primitive (ls ! x)" and pr': "primitive (rs ! x)" using prim xl xr by auto
    have r0: "registeredRefs c0" using I rr by (simp add: registeredRefs_def)
    have ns0: "\<not> searching c0" using I by simp
    from compare_leaves_Diff [OF pl pr' r0 alg ns0, of env m "Some (PIndex (int x))" "Some x" "Some lhs"
        "Some (PIndex (int x))" "Some rhs"]
    obtain b c' where
      "compare env this (Suc m) (Some (Node (ls ! x) (Some (PIndex (int x))) (Some x) (Some lhs)))
          (Some (Node (rs ! x) (Some (PIndex (int x))) (Some x) (Some rhs))) c0 = Some (Inr (RBool b, c'))"
      "changes c' = changes c0 @ (if leafSame env this (ls ! x) (rs ! x) then []
            else [EditLhs (makePath env this (Node (rs ! x) (Some (PIndex (int x))) (Some x) (Some rhs))) (rs ! x)])"
      "searching c' = searching c0" "refs c' = refs c0"
      by blast
    then show "\<exists>b c'. ?step x c0 = Some (Inr (RBool b, c')) \<and> ?I c' \<and> changes c' = changes c0 @ ?g x"
      using I xl xr strict ls rs pr
      by (auto simp add: nthOpt_elements element_path [OF tb] simp del: makePath.simps)
  qed
  have I0: "?I c" using ns by simp
  from visitEach_appends [of ?is ?I ?step ?g, OF st I0]
  obtain c1 where c1: "visitEach ?step ?is c = Some (Inr (RBool False, c1))" "?I c1"
    "changes c1 = changes c @ concat (map ?g ?is)" by blast
  then show ?thesis by (auto simp add: leafEdits_def)
qed

lemma upt_split_rev: "n \<le> m \<Longrightarrow> rev [0..<m] = rev [n..<m] @ rev [0..<n]"
  by (metis le0 rev_append upt_add_eq_append le_add_diff_inverse)

lemma surplus_indices:
  "map (indexUnder pre) (surplusChanges pre ls rs)
     = map Some (map int (rev [min (length ls) (length rs)..<max (length ls) (length rs)]))"
  by (simp add: surplusChanges_def indexUnder_surplus)

lemma descending_positions:
  assumes js: "map f new = map Some js" and sorted: "sorted_wrt (\<ge>) (js :: int list)"
  shows "(\<forall>ch \<in> set new. f ch \<noteq> None)
         \<and> (\<forall>p q i j. p < length new \<and> q < length new \<and> f (new ! p) = Some i
                \<and> f (new ! q) = Some j \<and> i < j \<longrightarrow> q < p)"
proof -
  have len: "length js = length new" using js by (metis length_map)
  have idx: "\<And>p. p < length new \<Longrightarrow> f (new ! p) = Some (js ! p)"
    using js len by (metis nth_map)
  have 1: "\<forall>ch \<in> set new. f ch \<noteq> None"
    using idx by (metis in_set_conv_nth option.distinct(1))
  have 2: "\<forall>p q i j. p < length new \<and> q < length new \<and> f (new ! p) = Some i
                \<and> f (new ! q) = Some j \<and> i < j \<longrightarrow> q < p"
  proof (intro allI impI)
    fix p q i j
    assume a: "p < length new \<and> q < length new \<and> f (new ! p) = Some i
                \<and> f (new ! q) = Some j \<and> i < j"
    then have ij: "js ! p = i" "js ! q = j" using idx by auto
    show "q < p"
    proof (rule ccontr)
      assume "\<not> q < p"
      then have "p = q \<or> p < q" by auto
      then show False
      proof
        assume "p = q" then show False using ij a by simp
      next
        assume "p < q"
        then have "js ! p \<ge> js ! q" using sorted a len by (simp add: sorted_wrt_iff_nth_less)
        then show False using ij a by simp
      qed
    qed
  qed
  show ?thesis using 1 2 by blast
qed

text \<open>
  Claim C6. Let \<open>lhs\<close> and \<open>rhs\<close> be two array nodes with the same path \<open>pre\<close> (the two
  roots, or two nodes anywhere below them), compared by index (\<open>laxArrayOrdering\<close> unset) by
  the \<open>Diff\<close> algorithm outside search mode. Whenever \<open>visitArray\<close> returns, the changes it
  has appended are, first, for the indices that only the longer array has, from the last
  one down, the removal of the left element or the addition of the right element, and then
  changes that all lie under indices which both arrays have. Along the whole list the
  indices never increase: if the change at position \<open>p\<close> lies under index \<open>i\<close>, the one at
  position \<open>q\<close> under index \<open>j\<close>, and \<open>i < j\<close>, then \<open>q < p\<close>. Where all elements are
  primitives other than \<open>undefined\<close> and the visited list holds references only, the
  changes for the common indices are exactly the edits of the elements that do not compare
  as equal, from the last index down.
\<close>

theorem strict_array_diff_tail_first:
  assumes strict: "\<not> laxArrayOrdering this" and alg: "algorithm this = Diff"
    and ta: "nodeTypeOf (heap env) lhs = Ty_array" and tb: "nodeTypeOf (heap env) rhs = Ty_array"
    and pl: "makePath env this lhs = pre" and pr: "makePath env this rhs = pre"
    and ns: "\<not> searching c"
    and ls: "ls = arrayElements (heap env) (nodeValue lhs)" and rs: "rs = arrayElements (heap env) (nodeValue rhs)"
    and run: "visitArray env this (compare env this m) lhs rhs c = Some (Inr (v, c'))"
  shows "\<exists>rest. changes c' = changes c @ surplusChanges pre ls rs @ rest
           \<and> (\<forall>ch \<in> set rest. \<exists>j. indexUnder pre ch = Some j \<and> 0 \<le> j \<and> j < int (min (length ls) (length rs)))
           \<and> (\<forall>p q i j. p < length (surplusChanges pre ls rs @ rest) \<and> q < length (surplusChanges pre ls rs @ rest)
                  \<and> indexUnder pre ((surplusChanges pre ls rs @ rest) ! p) = Some i
                  \<and> indexUnder pre ((surplusChanges pre ls rs @ rest) ! q) = Some j \<and> i < j \<longrightarrow> q < p)
           \<and> (registeredRefs c \<and> (\<forall>x \<in> set ls \<union> set rs. primitive x) \<longrightarrow> rest = leafEdits env this pre ls rs)"
proof -
  let ?l = "arrayElementNodes env this lhs"
  let ?r = "arrayElementNodes env this rhs"
  let ?step = "\<lambda>i c. compare env this m (nthOpt ?l (int i)) (nthOpt ?r (int i)) c"
  let ?min = "min (length ls) (length rs)" and ?max = "max (length ls) (length rs)"
  have ch: "chain (visitEach ?step (rev [0..<?max]) c) (\<lambda>ctx. ret (RBool False, ctx)) = Some (Inr (v, c'))"
    using run strict ls rs unfolding visitArray_def Let_def by simp
  have "\<exists>w. visitEach ?step (rev [0..<?max]) c = Some (Inr (w, c'))"
    using chain_Inr [OF ch] by (auto simp add: ret_def)
  then obtain w where w: "visitEach ?step (rev [0..<?max]) c = Some (Inr (w, c'))" ..
  show ?thesis
  proof (cases "?max = 0")
    case True
    then have e: "ls = []" "rs = []" by auto
    have "changes c' = changes c" using w True by (simp add: ret_def)
    then show ?thesis using e by (intro exI [of _ "[]"]) (simp add: surplusChanges_def leafEdits_def)
  next
    case False
    have "m \<noteq> 0"
    proof
      assume "m = 0"
      moreover obtain k where "?max = Suc k" using False by (cases ?max) auto
      ultimately show False using w by simp
    qed
    then obtain m' where m: "m = Suc m'" by (cases m) auto
    have split: "rev [0..<?max] = rev [?min..<?max] @ rev [0..<?min]"
      by (rule upt_split_rev) simp
    from surplus_steps [OF strict alg ta tb pl pr ns ls rs, of m']
    obtain c1 where c1: "visitEach ?step (rev [?min..<?max]) c = Some (Inr (RBool False, c1))"
      "\<not> searching c1 \<and> refs c1 = refs c" "changes c1 = changes c @ surplusChanges pre ls rs"
      unfolding m by blast
    have w2: "visitEach ?step (rev [0..<?min]) c1 = Some (Inr (w, c'))"
      using w unfolding split visitEach_append c1(1) by simp
    have pel: "\<And>i. pred_option (underIndex env this pre (int i)) (nthOpt ?l (int i))"
      using pred_option_element [OF ta, of this _ this] unfolding pl .
    have per: "\<And>i. pred_option (underIndex env this pre (int i)) (nthOpt ?r (int i))"
      using pred_option_element [OF tb, of this _ this] unfolding pr .
    have steps: "\<And>i. i \<in> set (rev [0..<?min]) \<Longrightarrow> keeps (emitsAt pre (int i)) (?step i)"
      by (rule compare_keeps [OF invariantFor_emitsAt pel per])
    have "emitsDescending pre (rev [0..<?min]) c1 c'"
      using steps rev_upt_descending w2 by (rule visitEach_descending)
    then obtain rest js where rest: "changes c' = changes c1 @ rest" "map (indexUnder pre) rest = map Some js"
      "sorted_wrt (\<ge>) js" "\<forall>j \<in> set js. \<exists>i \<in> set (rev [0..<?min]). j = int i"
      by (auto simp add: emitsDescending_def)
    have a: "changes c' = changes c @ surplusChanges pre ls rs @ rest" using rest(1) c1(3) by simp
    have b: "\<forall>ch \<in> set rest. \<exists>j. indexUnder pre ch = Some j \<and> 0 \<le> j \<and> j < int ?min"
    proof
      fix ch assume "ch \<in> set rest"
      then obtain p where p: "p < length rest" "rest ! p = ch" by (auto simp add: in_set_conv_nth)
      have len: "length js = length rest" using rest(2) by (metis length_map)
      have "indexUnder pre ch = Some (js ! p)" using rest(2) p len by (metis nth_map)
      moreover have "js ! p \<in> set js" using p len by simp
      then have "0 \<le> js ! p \<and> js ! p < int ?min" using rest(4) by auto
      ultimately show "\<exists>j. indexUnder pre ch = Some j \<and> 0 \<le> j \<and> j < int ?min" by blast
    qed
    let ?js = "map int (rev [?min..<?max]) @ js"
    have all: "map (indexUnder pre) (surplusChanges pre ls rs @ rest) = map Some ?js"
      using rest(2) by (simp add: surplus_indices)
    have s1: "sorted_wrt (\<ge>) (map int (rev [?min..<?max]))"
      by (simp add: sorted_wrt_map rev_map [symmetric] sorted_wrt_rev)
    have s2: "\<forall>x \<in> set (map int (rev [?min..<?max])). \<forall>y \<in> set js. x \<ge> y"
      using rest(4) by fastforce
    have srt: "sorted_wrt (\<ge>) ?js" using s1 s2 rest(3) by (simp add: sorted_wrt_append)
    have c: "\<forall>p q i j. p < length (surplusChanges pre ls rs @ rest) \<and> q < length (surplusChanges pre ls rs @ rest)
                  \<and> indexUnder pre ((surplusChanges pre ls rs @ rest) ! p) = Some i
                  \<and> indexUnder pre ((surplusChanges pre ls rs @ rest) ! q) = Some j \<and> i < j \<longrightarrow> q < p"
      using descending_positions [OF all srt] by blast
    have d: "registeredRefs c \<and> (\<forall>x \<in> set ls \<union> set rs. primitive x) \<longrightarrow> rest = leafEdits env this pre ls rs"
    proof
      assume h: "registeredRefs c \<and> (\<forall>x \<in> set ls \<union> set rs. primitive x)"
      have r1: "registeredRefs c1" using h c1(2) by (simp add: registeredRefs_def)
      have n1: "\<not> searching c1" using c1(2) by simp
      from leaf_steps [OF strict alg ta tb pr n1 r1 ls rs, of m'] h
      obtain c2 where c2: "visitEach ?step (rev [0..<?min]) c1 = Some (Inr (RBool False, c2))"
        "changes c2 = changes c1 @ leafEdits env this pre ls rs"
        unfolding m by blast
      have "c2 = c'" using c2(1) w2 by simp
      then show "rest = leafEdits env this pre ls rs" using c2(2) rest(1) by simp
    qed
    show ?thesis using a b c d by blast
  qed
qed

theorem strict_array_diff_tail_first_witness:
  "\<not> laxArrayOrdering defaultOptions \<and> algorithm defaultOptions = Diff
   \<and> nodeTypeOf (heap (simpleEnv nestedArraysHeap)) leftArrayNode = Ty_array
   \<and> nodeTypeOf (heap (simpleEnv nestedArraysHeap)) rightArrayNode = Ty_array
   \<and> makePath (simpleEnv nestedArraysHeap) defaultOptions leftArrayNode = [propertySegment ''x'']
   \<and> makePath (simpleEnv nestedArraysHeap) defaultOptions rightArrayNode = [propertySegment ''x'']
   \<and> \<not> searching (createContext defaultOptions)
   \<and> arrayElements (heap (simpleEnv nestedArraysHeap)) (nodeValue leftArrayNode)
       = [VNumber (Num 1), VNumber (Num 2), VNumber (Num 3), VNumber (Num 4)]
   \<and> arrayElements (heap (simpleEnv nestedArraysHeap)) (nodeValue rightArrayNode)
       = [VNumber (Num 1), VNumber (Num 5)]
   \<and> visitArray (simpleEnv nestedArraysHeap) defaultOptions (compare (simpleEnv nestedArraysHeap) defaultOptions 1)
         leftArrayNode rightArrayNode (createContext defaultOptions)
       = Some (Inr (RBool False,
            (createContext defaultOptions)
              \<lparr>result := Some IS_LT,
               changes := [RemoveFromLhs [propertySegment ''x'', arraySegment 3],
                           RemoveFromLhs [propertySegment ''x'', arraySegment 2],
                           EditLhs [propertySegment ''x'', arraySegment 1] (VNumber (Num 5))]\<rparr>))
   \<and> surplusChanges [propertySegment ''x'']
         [VNumber (Num 1), VNumber (Num 2), VNumber (Num 3), VNumber (Num 4)] [VNumber (Num 1), VNumber (Num 5)]
       = [RemoveFromLhs [propertySegment ''x'', arraySegment 3],
          RemoveFromLhs [propertySegment ''x'', arraySegment 2]]
   \<and> leafEdits (simpleEnv nestedArraysHeap) defaultOptions [propertySegment ''x'']
         [VNumber (Num 1), VNumber (Num 2), VNumber (Num 3), VNumber (Num 4)] [VNumber (Num 1), VNumber (Num 5)]
       = [EditLhs [propertySegment ''x'', arraySegment 1] (VNumber (Num 5))]
   \<and> [RemoveFromLhs [propertySegment ''x'', arraySegment 3],
       RemoveFromLhs [propertySegment ''x'', arraySegment 2],
       EditLhs [propertySegment ''x'', arraySegment 1] (VNumber (Num 5))]
       = surplusChanges [propertySegment ''x'']
           [VNumber (Num 1), VNumber (Num 2), VNumber (Num 3), VNumber (Num 4)] [VNumber (Num 1), VNumber (Num 5)]
         @ leafEdits (simpleEnv nestedArraysHeap) defaultOptions [propertySegment ''x'']
             [VNumber (Num 1), VNumber (Num 2), VNumber (Num 3), VNumber (Num 4)] [VNumber (Num 1), VNumber (Num 5)]
   \<and> diff (simpleEnv nestedArraysHeap) defaultOptions 3 (VRef 0) (VRef 2)
       = Some (Inr [RemoveFromLhs [propertySegment ''x'', arraySegment 3],
                    RemoveFromLhs [propertySegment ''x'', arraySegment 2],
                    EditLhs [propertySegment ''x'', arraySegment 1] (VNumber (Num 5))])"
proof -
  let ?env = "simpleEnv nestedArraysHeap"
  let ?ls = "[VNumber (Num 1), VNumber (Num 2), VNumber (Num 3), VNumber (Num 4)]"
  let ?rs = "[VNumber (Num 1), VNumber (Num 5)]"
  let ?pre = "[propertySegment ''x'']"
  let ?c = "createContext defaultOptions"
  let ?new = "[RemoveFromLhs [propertySegment ''x'', arraySegment 3],
               RemoveFromLhs [propertySegment ''x'', arraySegment 2],
               EditLhs [propertySegment ''x'', arraySegment 1] (VNumber (Num 5))]"
  let ?c' = "?c\<lparr>result := Some IS_LT, changes := ?new\<rparr>"
  have s: "\<not> laxArrayOrdering defaultOptions" by (simp add: defaultOptions_def)
  have a: "algorithm defaultOptions = Diff" by (simp add: defaultOptions_def)
  have ta: "nodeTypeOf (heap ?env) leftArrayNode = Ty_array" by code_simp
  have tb: "nodeTypeOf (heap ?env) rightArrayNode = Ty_array" by code_simp
  have pl: "makePath ?env defaultOptions leftArrayNode = ?pre" by code_simp
  have pr: "makePath ?env defaultOptions rightArrayNode = ?pre" by code_simp
  have ns: "\<not> searching ?c" by (simp add: createContext_def)
  have ls: "?ls = arrayElements (heap ?env) (nodeValue leftArrayNode)" by code_simp
  have rs: "?rs = arrayElements (heap ?env) (nodeValue rightArrayNode)" by code_simp
  have run: "visitArray ?env defaultOptions (compare ?env defaultOptions 1) leftArrayNode rightArrayNode ?c
               = Some (Inr (RBool False, ?c'))" by code_simp
  have rr: "registeredRefs ?c" by (simp add: registeredRefs_def createContext_def defaultOptions_def)
  have prim: "\<forall>x \<in> set ?ls \<union> set ?rs. primitive x" by (simp add: primitive_def)
  have su: "surplusChanges ?pre ?ls ?rs = [RemoveFromLhs [propertySegment ''x'', arraySegment 3],
          RemoveFromLhs [propertySegment ''x'', arraySegment 2]]" by code_simp
  have le: "leafEdits ?env defaultOptions ?pre ?ls ?rs
              = [EditLhs [propertySegment ''x'', arraySegment 1] (VNumber (Num 5))]" by code_simp
  have d: "diff ?env defaultOptions 3 (VRef 0) (VRef 2) = Some (Inr ?new)" by code_simp
  have c0: "changes ?c = []" by (simp add: createContext_def)
  from strict_array_diff_tail_first [OF s a ta tb pl pr ns ls rs run]
  obtain rest where rest: "changes ?c' = changes ?c @ surplusChanges ?pre ?ls ?rs @ rest"
    "registeredRefs ?c \<and> (\<forall>x \<in> set ?ls \<union> set ?rs. primitive x)
       \<longrightarrow> rest = leafEdits ?env defaultOptions ?pre ?ls ?rs"
    by blast
  have "rest = leafEdits ?env defaultOptions ?pre ?ls ?rs" using rest(2) rr prim by blast
  then have e: "?new = surplusChanges ?pre ?ls ?rs @ leafEdits ?env defaultOptions ?pre ?ls ?rs"
    using rest(1) c0 by simp
  show ?thesis using s a ta tb pl pr ns ls [symmetric] rs [symmetric] run su le e d by (intro conjI)
qed

section \<open>Diff, apply and compare again on arrays whose elements are leaves\<close>







lemma makePath_root [simp]: "makePath env this (rootNode v) = []"
  by (simp add: rootNode_def)



lemma leafEdits_algorithm [simp]:
  "leafEdits env (this\<lparr>algorithm := x\<rparr>) pre ls rs = leafEdits env this pre ls rs"
  by (simp add: leafEdits_def)















section \<open>The round trip of diff, copy, apply and equal\<close>




end
